theory Spec2Isabelle
  imports Main
begin

section \<open>Pixlet: the grid editing and history engine of \<^verbatim>\<open>src/App.vue\<close>\<close>

text \<open>
  The component keeps its state in module-level reactive references. The model collects
  them in one record that every operation takes and returns. Rendering
  (\<^verbatim>\<open>renderCanvas\<close>, \<^verbatim>\<open>renderSinglePixel\<close>, \<^verbatim>\<open>drawGridLines\<close>) only writes to the
  canvas and reads nothing back, so it leaves the record unchanged and is omitted.
  Cell coordinates are JavaScript numbers holding integers (they come from
  \<^verbatim>\<open>Math.floor\<close> and from adding or subtracting 1), modelled as \<open>int\<close>.
\<close>

subsection \<open>State\<close>

type_synonym color = string
type_synonym grid = "color list list"

datatype tool = Pencil | Eraser | Fill | Eyedropper

record editor =
  gridWidth :: int
  gridHeight :: int
  grid :: grid
  currentColor :: color
  currentTool :: tool
  isDrawing :: bool
  lastDrawnPos :: "(int \<times> int) option"
  brushSize :: int
  history :: "grid list"
  historyIndex :: int
  colorHistory :: "color list"

definition MAX_HISTORY :: int where
  "MAX_HISTORY = 50"

text \<open>The values the references hold when the component is created.\<close>

definition initialRefs :: editor where
  "initialRefs =
     \<lparr> gridWidth = 32, gridHeight = 32, grid = [],
       currentColor = ''#000000'', currentTool = Pencil, isDrawing = False,
       lastDrawnPos = None, brushSize = 1, history = [], historyIndex = - 1,
       colorHistory = [''#000000'', ''#FFFFFF''] \<rparr>"

subsection \<open>Array access\<close>

text \<open>
  \<^verbatim>\<open>grid.value[row][col]\<close>. An index outside an array yields \<^verbatim>\<open>undefined\<close> in
  JavaScript (and reading a column of a missing row raises); \<open>None\<close> stands for both.
  Every access of the source is guarded by the bounds check against
  \<^verbatim>\<open>gridHeight\<close> and \<^verbatim>\<open>gridWidth\<close>, and on the states the program reaches
  (\<open>grid_ok\<close> below) the guarded index is inside the array.
\<close>

definition getCell :: "grid \<Rightarrow> int \<Rightarrow> int \<Rightarrow> color option" where
  "getCell g row col =
     (if 0 \<le> row \<and> nat row < length g \<and> 0 \<le> col \<and> nat col < length (g ! nat row)
      then Some (g ! nat row ! nat col) else None)"

text \<open>\<^verbatim>\<open>grid.value[row][col] = color\<close>, for an index inside the array.\<close>

definition setCell :: "grid \<Rightarrow> int \<Rightarrow> int \<Rightarrow> color \<Rightarrow> grid" where
  "setCell g row col v = g[nat row := (g ! nat row)[nat col := v]]"

definition inBounds :: "editor \<Rightarrow> int \<Rightarrow> int \<Rightarrow> bool" where
  "inBounds s row col \<longleftrightarrow> 0 \<le> row \<and> row < gridHeight s \<and> 0 \<le> col \<and> col < gridWidth s"

text \<open>
  The shape invariant: the grid has \<open>gridHeight\<close> rows of \<open>gridWidth\<close> cells.
  \<open>rows_ok\<close> is written as a recursion so that it evaluates.
\<close>

fun rows_ok :: "nat \<Rightarrow> grid \<Rightarrow> bool" where
  "rows_ok w [] = True"
| "rows_ok w (r # rs) = (length r = w \<and> rows_ok w rs)"

definition grid_ok :: "editor \<Rightarrow> bool" where
  "grid_ok s \<longleftrightarrow>
     0 \<le> gridHeight s \<and> 0 \<le> gridWidth s \<and>
     length (grid s) = nat (gridHeight s) \<and> rows_ok (nat (gridWidth s)) (grid s)"

subsection \<open>History\<close>

text \<open>\<^verbatim>\<open>xs.slice(0, e)\<close>: a negative end counts from the end of the array.\<close>

definition slice0 :: "'a list \<Rightarrow> int \<Rightarrow> 'a list" where
  "slice0 xs e = take (nat (if e < 0 then max (int (length xs) + e) 0 else e)) xs"

text \<open>
  \<^verbatim>\<open>saveState\<close>. The deep copy \<^verbatim>\<open>grid.value.map(row => [...row])\<close> makes the stored
  entry independent of later writes to the live grid; HOL values are immutable, so the
  copy is the value itself. \<^verbatim>\<open>shift()\<close> removes the first element.
\<close>

definition saveState :: "editor \<Rightarrow> editor" where
  "saveState s =
     (let h = slice0 (history s) (historyIndex s + 1) @ [grid s]
      in if int (length h) > MAX_HISTORY
         then s\<lparr>history := tl h\<rparr>
         else s\<lparr>history := h, historyIndex := historyIndex s + 1\<rparr>)"

text \<open>
  \<^verbatim>\<open>undo\<close> and \<^verbatim>\<open>redo\<close>. The entry read is inside the array whenever the cursor is
  on an entry of the history, which \<open>hist_ok\<close> below states.
\<close>

definition undo :: "editor \<Rightarrow> editor" where
  "undo s =
     (if historyIndex s > 0
      then let i = historyIndex s - 1 in s\<lparr>historyIndex := i, grid := history s ! nat i\<rparr>
      else s)"

definition redo :: "editor \<Rightarrow> editor" where
  "redo s =
     (if historyIndex s < int (length (history s)) - 1
      then let i = historyIndex s + 1 in s\<lparr>historyIndex := i, grid := history s ! nat i\<rparr>
      else s)"

definition initializeGrid :: "editor \<Rightarrow> editor" where
  "initializeGrid s =
     saveState (s\<lparr>grid := replicate (nat (gridHeight s)) (replicate (nat (gridWidth s)) ''#FFFFFF''),
                  history := [], historyIndex := - 1\<rparr>)"

text \<open>
  \<^verbatim>\<open>resizeGrid\<close>, after the dialog has returned and \<^verbatim>\<open>parseInt\<close> has produced the
  number \<open>newSize\<close>: a size outside 8..64 is refused and changes nothing.
\<close>

definition resizeGrid :: "int \<Rightarrow> editor \<Rightarrow> editor" where
  "resizeGrid newSize s =
     (if newSize < 8 \<or> newSize > 64 then s
      else initializeGrid (s\<lparr>gridWidth := newSize, gridHeight := newSize\<rparr>))"

definition hist_ok :: "editor \<Rightarrow> bool" where
  "hist_ok s \<longleftrightarrow>
     0 \<le> historyIndex s \<and> historyIndex s < int (length (history s)) \<and>
     int (length (history s)) \<le> MAX_HISTORY"

text \<open>
  The invariant of the editor state: the grid has its shape, the cursor is on an entry of
  the history, the history holds at most \<open>MAX_HISTORY\<close> entries, and every entry has the
  shape of the grid. The startup state has it and every operation modelled here keeps it
  (section \<open>The state invariant\<close>), so the guarded reads of the grid and of the history
  are inside their arrays.
\<close>

definition entry_ok :: "nat \<Rightarrow> nat \<Rightarrow> grid \<Rightarrow> bool" where
  "entry_ok h w g \<longleftrightarrow> length g = h \<and> rows_ok w g"

definition editor_ok :: "editor \<Rightarrow> bool" where
  "editor_ok s \<longleftrightarrow>
     grid_ok s \<and> hist_ok s \<and>
     list_all (entry_ok (nat (gridHeight s)) (nat (gridWidth s))) (history s)"

text \<open>
  Recording a sequence of edits: each edit leaves some grid \<open>g\<close> in place and is followed
  by \<^verbatim>\<open>saveState\<close>, as at the end of a gesture. \<open>at_newest\<close> says that the cursor is
  on the last entry, so that nothing can be redone.
\<close>

definition recordEdits :: "grid list \<Rightarrow> editor \<Rightarrow> editor" where
  "recordEdits gs s = fold (\<lambda>g s'. saveState (s'\<lparr>grid := g\<rparr>)) gs s"

definition at_newest :: "editor \<Rightarrow> bool" where
  "at_newest s \<longleftrightarrow> historyIndex s = int (length (history s)) - 1"

subsection \<open>Colour history\<close>

definition addToColorHistory :: "color \<Rightarrow> editor \<Rightarrow> editor" where
  "addToColorHistory color s =
     (let filtered = filter (\<lambda>c. c \<noteq> color) (colorHistory s)
      in s\<lparr>colorHistory := slice0 (color # filtered) 20\<rparr>)"

subsection \<open>Colour values\<close>

text \<open>
  The program stores a colour as the hex string \<^verbatim>\<open>#rrggbb\<close> and compares colours as
  strings (\<^verbatim>\<open>!==\<close> in \<^verbatim>\<open>addToColorHistory\<close> and \<^verbatim>\<open>floodFill\<close>). The red, green and
  blue value of a string is what \<^verbatim>\<open>renderHoverPreview\<close> computes from it:
  \<^verbatim>\<open>parseInt(color.slice(1, 3), 16)\<close> and likewise for the slices at 3 and 5.
  \<open>parseInt16\<close> reads the longest prefix of hex digits, in either letter case, and is
  \<open>None\<close> (\<^verbatim>\<open>NaN\<close>) when there is none. The grid and the seeded colour history hold white
  as \<^verbatim>\<open>#FFFFFF\<close>; the colour input of the toolbar delivers lower-case strings, so white
  picked there is \<^verbatim>\<open>#ffffff\<close>.
\<close>

definition hexDigit :: "char \<Rightarrow> nat option" where
  "hexDigit ch =
     map_of [(CHR ''0'', 0), (CHR ''1'', 1), (CHR ''2'', 2), (CHR ''3'', 3), (CHR ''4'', 4),
             (CHR ''5'', 5), (CHR ''6'', 6), (CHR ''7'', 7), (CHR ''8'', 8), (CHR ''9'', 9),
             (CHR ''a'', 10), (CHR ''b'', 11), (CHR ''c'', 12), (CHR ''d'', 13), (CHR ''e'', 14),
             (CHR ''f'', 15),
             (CHR ''A'', 10), (CHR ''B'', 11), (CHR ''C'', 12), (CHR ''D'', 13), (CHR ''E'', 14),
             (CHR ''F'', 15)] ch"

definition parseInt16 :: "string \<Rightarrow> nat option" where
  "parseInt16 str =
     (let digits = takeWhile (\<lambda>ch. hexDigit ch \<noteq> None) str
      in if digits = [] then None
         else Some (foldl (\<lambda>n ch. case hexDigit ch of None \<Rightarrow> n | Some d \<Rightarrow> 16 * n + d) 0 digits))"

definition colorValue :: "color \<Rightarrow> nat option \<times> nat option \<times> nat option" where
  "colorValue color =
     (parseInt16 (take 2 (drop 1 color)), parseInt16 (take 2 (drop 3 color)),
      parseInt16 (take 2 (drop 5 color)))"

subsection \<open>Flood fill\<close>

text \<open>
  \<^verbatim>\<open>floodFill\<close> writes one cell and then calls itself on the four neighbours, each call
  working on the grid the previous one left. The recursion is nested, so its termination
  (proved further down) rests on a property of the function itself: a call never increases
  the number of cells that hold the target colour, which \<open>targetCount\<close> counts.
\<close>

definition targetCount :: "color \<Rightarrow> grid \<Rightarrow> nat" where
  "targetCount c g = sum_list (map (\<lambda>r. count_list r c) g)"

function (domintros) floodFill :: "int \<Rightarrow> int \<Rightarrow> color \<Rightarrow> color \<Rightarrow> editor \<Rightarrow> editor" where
  "floodFill row col targetColor replacementColor s =
     (if targetColor = replacementColor then s
      else if row < 0 \<or> row \<ge> gridHeight s \<or> col < 0 \<or> col \<ge> gridWidth s then s
      else if getCell (grid s) row col \<noteq> Some targetColor then s
      else
        let s0 = s\<lparr>grid := setCell (grid s) row col replacementColor\<rparr>;
            s1 = floodFill (row - 1) col targetColor replacementColor s0;
            s2 = floodFill (row + 1) col targetColor replacementColor s1;
            s3 = floodFill row (col - 1) targetColor replacementColor s2
        in floodFill row (col + 1) targetColor replacementColor s3)"
  by pat_completeness auto


text \<open>
  The predicates in which the effect of a fill is stated. \<open>repaints tc rc g g'\<close>: the grid
  \<open>g'\<close> has the shape of \<open>g\<close>, and every cell of \<open>g'\<close> either is as in \<open>g\<close> or held
  \<open>tc\<close> and now holds \<open>rc\<close>. \<open>fillClosed tc s s'\<close>: each cell that lost the colour \<open>tc\<close>
  between \<open>s\<close> and \<open>s'\<close> has no neighbour inside the grid that still holds \<open>tc\<close>.
\<close>

definition repaints :: "color \<Rightarrow> color \<Rightarrow> grid \<Rightarrow> grid \<Rightarrow> bool" where
  "repaints tc rc g g' \<longleftrightarrow>
     map length g' = map length g \<and>
     (\<forall>r c. getCell g' r c = getCell g r c \<or> (getCell g r c = Some tc \<and> getCell g' r c = Some rc))"

definition neighbour :: "int \<Rightarrow> int \<Rightarrow> int \<Rightarrow> int \<Rightarrow> bool" where
  "neighbour r c r' c' \<longleftrightarrow>
     (r' = r - 1 \<and> c' = c) \<or> (r' = r + 1 \<and> c' = c) \<or> (r' = r \<and> c' = c - 1) \<or> (r' = r \<and> c' = c + 1)"

definition fillClosed :: "color \<Rightarrow> editor \<Rightarrow> editor \<Rightarrow> bool" where
  "fillClosed tc s s' \<longleftrightarrow>
     (\<forall>r c r' c'. getCell (grid s) r c = Some tc \<and> getCell (grid s') r c \<noteq> Some tc \<and>
        neighbour r c r' c' \<and> inBounds s r' c' \<longrightarrow> getCell (grid s') r' c' \<noteq> Some tc)"

subsection \<open>Tools\<close>

text \<open>
  The brush loops of \<^verbatim>\<open>drawPixel\<close>: \<open>r\<close> and \<open>c\<close> run over
  \<open>[-offset, brushSize - offset)\<close>, and a cell outside the grid is skipped. The pencil and
  the eraser branch hold the same two loops, differing in the colour written.
  \<open>brushCells\<close> is the list of cells the loops write, in the order they write them.
\<close>

definition brushCells :: "editor \<Rightarrow> int \<Rightarrow> int \<Rightarrow> (int \<times> int) list" where
  "brushCells s row col =
     (let offset = brushSize s div 2
      in [(row + r, col + c).
            r \<leftarrow> [- offset .. brushSize s - offset - 1],
            c \<leftarrow> [- offset .. brushSize s - offset - 1],
            inBounds s (row + r) (col + c)])"

definition paintCells :: "(int \<times> int) list \<Rightarrow> color \<Rightarrow> grid \<Rightarrow> grid" where
  "paintCells cells color g = fold (\<lambda>(newRow, newCol) g'. setCell g' newRow newCol color) cells g"

text \<open>
  \<^verbatim>\<open>drawPixel\<close>. In the fill and eyedropper branches the cell read is inside the array
  on every state with \<open>grid_ok\<close>; the \<open>None\<close> cases are not reached from such a state.
\<close>

definition drawPixel :: "int \<Rightarrow> int \<Rightarrow> editor \<Rightarrow> editor" where
  "drawPixel row col s =
     (if row < 0 \<or> row \<ge> gridHeight s \<or> col < 0 \<or> col \<ge> gridWidth s then s
      else case currentTool s of
        Pencil \<Rightarrow>
          let color = currentColor s;
              s1 = addToColorHistory color s
          in s1\<lparr>grid := paintCells (brushCells s1 row col) color (grid s1)\<rparr>
      | Eraser \<Rightarrow> s\<lparr>grid := paintCells (brushCells s row col) ''#FFFFFF'' (grid s)\<rparr>
      | Fill \<Rightarrow>
          (case getCell (grid s) row col of
             None \<Rightarrow> s
           | Some targetColor \<Rightarrow>
               saveState (addToColorHistory (currentColor s)
                 (floodFill row col targetColor (currentColor s) s)))
      | Eyedropper \<Rightarrow>
          (case getCell (grid s) row col of
             None \<Rightarrow> s
           | Some c \<Rightarrow> s\<lparr>currentColor := c, currentTool := Pencil\<rparr>))"

text \<open>
  \<open>inBrush s row col i j\<close>: the cell \<open>(i, j)\<close> is \<open>(row + r, col + c)\<close> for offsets
  \<open>r\<close> and \<open>c\<close> in \<open>[-offset, brushSize - offset)\<close>, with \<open>offset = floor (brushSize / 2)\<close>.
  \<open>stampColor\<close> is the colour a stamp writes: the current colour for the pencil,
  white for the eraser.
\<close>

definition inBrush :: "editor \<Rightarrow> int \<Rightarrow> int \<Rightarrow> int \<Rightarrow> int \<Rightarrow> bool" where
  "inBrush s row col i j \<longleftrightarrow>
     row - brushSize s div 2 \<le> i \<and> i < row + (brushSize s - brushSize s div 2) \<and>
     col - brushSize s div 2 \<le> j \<and> j < col + (brushSize s - brushSize s div 2)"

definition stampColor :: "editor \<Rightarrow> color" where
  "stampColor s = (if currentTool s = Pencil then currentColor s else ''#FFFFFF'')"

text \<open>The state after \<^verbatim>\<open>onMounted\<close>: the initial references, then \<^verbatim>\<open>initializeGrid\<close>.\<close>

definition startup :: editor where
  "startup = initializeGrid initialRefs"


definition picker :: editor where
  "picker = startup\<lparr>currentTool := Eyedropper\<rparr>"

definition blackFill :: editor where
  "blackFill = startup\<lparr>currentTool := Fill\<rparr>"

text \<open>
  Two states with white picked in the colour input: the startup state with the pencil, and
  an 8 by 8 grid on which the pencil, at brush size 1, has then stamped cell \<open>(0, 0)\<close>.
\<close>

definition whitePencil :: editor where
  "whitePencil = startup\<lparr>currentColor := ''#ffffff''\<rparr>"

definition mixedWhite :: editor where
  "mixedWhite = drawPixel 0 0 ((resizeGrid 8 initialRefs)\<lparr>currentColor := ''#ffffff''\<rparr>)"

text \<open>
  \<^verbatim>\<open>startDrawing\<close> and \<^verbatim>\<open>stopDrawing\<close>, the handlers of pointer-down and pointer-up
  (\<^verbatim>\<open>onCanvasMouseDown\<close> calls the first with the clamped cell under the pointer,
  \<^verbatim>\<open>onCanvasMouseUp\<close> calls the second). \<^verbatim>\<open>hoveredCell\<close> only drives the preview.
\<close>

definition startDrawing :: "int \<Rightarrow> int \<Rightarrow> editor \<Rightarrow> editor" where
  "startDrawing row col s = drawPixel row col (s\<lparr>isDrawing := True, lastDrawnPos := Some (row, col)\<rparr>)"

definition stopDrawing :: "editor \<Rightarrow> editor" where
  "stopDrawing s =
     (let s1 = (if isDrawing s then saveState s else s)
      in s1\<lparr>isDrawing := False, lastDrawnPos := None\<rparr>)"

subsection \<open>Line interpolation\<close>

text \<open>
  The \<^verbatim>\<open>while (true)\<close> loop of \<^verbatim>\<open>drawLine\<close>. Each round first calls
  \<^verbatim>\<open>drawPixel(currentRow, currentCol)\<close>, which reads and writes none of the loop's
  variables; the model takes that call as the parameter \<open>visit\<close>, so that the same loop
  run with a recording visit gives the sequence of cells. The loop has no bound of its own:
  it is a partial function, and \<open>None\<close> means that it does not return.
\<close>

partial_function (option) drawLine_loop ::
  "(int \<Rightarrow> int \<Rightarrow> 'a \<Rightarrow> 'a) \<Rightarrow> int \<Rightarrow> int \<Rightarrow> int \<Rightarrow> int \<Rightarrow> int \<Rightarrow> int \<Rightarrow>
     int \<Rightarrow> int \<Rightarrow> int \<Rightarrow> 'a \<Rightarrow> 'a option" where
  "drawLine_loop visit dx dy sx sy row1 col1 err currentRow currentCol st =
     (let st' = visit currentRow currentCol st
      in if currentRow = row1 \<and> currentCol = col1 then Some st'
         else
           let e2 = 2 * err;
               err1 = (if e2 > - dy then err - dy else err);
               currentCol' = (if e2 > - dy then currentCol + sx else currentCol);
               err2 = (if e2 < dx then err1 + dx else err1);
               currentRow' = (if e2 < dx then currentRow + sy else currentRow)
           in drawLine_loop visit dx dy sx sy row1 col1 err2 currentRow' currentCol' st')"

definition drawLine_with ::
  "(int \<Rightarrow> int \<Rightarrow> 'a \<Rightarrow> 'a) \<Rightarrow> int \<Rightarrow> int \<Rightarrow> int \<Rightarrow> int \<Rightarrow> 'a \<Rightarrow> 'a option" where
  "drawLine_with visit row0 col0 row1 col1 st =
     (let dx = \<bar>col1 - col0\<bar>;
          dy = \<bar>row1 - row0\<bar>;
          sx = (if col0 < col1 then 1 else - 1);
          sy = (if row0 < row1 then 1 else - 1);
          err = dx - dy
      in drawLine_loop visit dx dy sx sy row1 col1 err row0 col0 st)"

definition drawLine :: "int \<Rightarrow> int \<Rightarrow> int \<Rightarrow> int \<Rightarrow> editor \<Rightarrow> editor option" where
  "drawLine row0 col0 row1 col1 s = drawLine_with drawPixel row0 col0 row1 col1 s"

text \<open>
  The cells \<^verbatim>\<open>drawLine\<close> passes to \<^verbatim>\<open>drawPixel\<close>, in order: the loop run with a
  visit that appends the cell to a list.
\<close>

abbreviation record_cell :: "int \<Rightarrow> int \<Rightarrow> (int \<times> int) list \<Rightarrow> (int \<times> int) list" where
  "record_cell \<equiv> \<lambda>r c cells. cells @ [(r, c)]"

definition lineCells :: "int \<Rightarrow> int \<Rightarrow> int \<Rightarrow> int \<Rightarrow> (int \<times> int) list option" where
  "lineCells row0 col0 row1 col1 = drawLine_with record_cell row0 col0 row1 col1 []"

text \<open>
  \<open>connected8\<close>: consecutive cells of a list differ by at most one row and at most one
  column. \<open>visitAll\<close> applies a visit to the cells of a list, first to last.
\<close>

fun connected8 :: "(int \<times> int) list \<Rightarrow> bool" where
  "connected8 (p # q # ps) =
     (\<bar>fst q - fst p\<bar> \<le> 1 \<and> \<bar>snd q - snd p\<bar> \<le> 1 \<and> connected8 (q # ps))"
| "connected8 ps = True"

definition visitAll :: "(int \<Rightarrow> int \<Rightarrow> 'a \<Rightarrow> 'a) \<Rightarrow> (int \<times> int) list \<Rightarrow> 'a \<Rightarrow> 'a" where
  "visitAll visit cells st = fold (\<lambda>(r, c). visit r c) cells st"

subsection \<open>Pointer motion\<close>

text \<open>
  \<^verbatim>\<open>onCanvasMouseMove\<close>, with the event's \<^verbatim>\<open>buttons\<close> and the clamped cell that
  \<^verbatim>\<open>getCanvasCoordinates\<close> returns for it (\<open>None\<close> when there is no canvas). With the
  primary button up it only moves the hover preview. The result is \<open>None\<close> when
  \<^verbatim>\<open>drawLine\<close> does not return. \<open>dragMoves\<close> runs the handler over the motion events of a
  drag, and \<open>stroking h i\<close> describes the states in the middle of a pencil or eraser
  stroke that began with history \<open>h\<close> and cursor \<open>i\<close>.
\<close>

definition onCanvasMouseMove :: "int \<Rightarrow> (int \<times> int) option \<Rightarrow> editor \<Rightarrow> editor option" where
  "onCanvasMouseMove buttons coords s =
     (if buttons = 1 then
        let s1 = (if \<not> isDrawing s \<and> (currentTool s = Pencil \<or> currentTool s = Eraser)
                  then s\<lparr>isDrawing := True\<rparr> else s)
        in case coords of
             None \<Rightarrow> Some s1
           | Some (row, col) \<Rightarrow>
               if isDrawing s1 \<and> (currentTool s1 = Pencil \<or> currentTool s1 = Eraser) then
                 (case lastDrawnPos s1 of
                    Some (lastRow, lastCol) \<Rightarrow>
                      if lastRow \<noteq> row \<or> lastCol \<noteq> col
                      then map_option (\<lambda>s2. s2\<lparr>lastDrawnPos := Some (row, col)\<rparr>)
                             (drawLine lastRow lastCol row col s1)
                      else Some (s1\<lparr>lastDrawnPos := Some (row, col)\<rparr>)
                  | None \<Rightarrow> Some ((drawPixel row col s1)\<lparr>lastDrawnPos := Some (row, col)\<rparr>))
               else Some s1
      else Some s)"

fun dragMoves :: "(int \<times> int) option list \<Rightarrow> editor \<Rightarrow> editor option" where
  "dragMoves [] s = Some s"
| "dragMoves (c # cs) s =
     (case onCanvasMouseMove 1 c s of None \<Rightarrow> None | Some s' \<Rightarrow> dragMoves cs s')"

definition stroking :: "grid list \<Rightarrow> int \<Rightarrow> editor \<Rightarrow> bool" where
  "stroking h i s \<longleftrightarrow>
     (currentTool s = Pencil \<or> currentTool s = Eraser) \<and> isDrawing s \<and>
     history s = h \<and> historyIndex s = i"

section \<open>The termination proof of the flood fill\<close>

lemma count_list_update:
  "i < length xs \<Longrightarrow> xs ! i = c \<Longrightarrow> v \<noteq> c \<Longrightarrow>
     Suc (count_list (xs[i := v]) c) = count_list xs c"
  by (induction xs arbitrary: i) (auto split: nat.splits)

lemma sum_list_update_row:
  "i < length g \<Longrightarrow> Suc (f r') = f (g ! i) \<Longrightarrow>
     Suc (sum_list (map f (g[i := r']))) = sum_list (map f g)"
  by (induction g arbitrary: i) (auto split: nat.splits)

lemma targetCount_setCell:
  "getCell g row col = Some c \<Longrightarrow> v \<noteq> c \<Longrightarrow>
     Suc (targetCount c (setCell g row col v)) = targetCount c g"
  unfolding targetCount_def getCell_def setCell_def
  by (auto split: if_splits intro!: sum_list_update_row count_list_update)

lemma floodFill_count_le:
  "floodFill_dom (row, col, tc, rc, s) \<Longrightarrow>
     targetCount tc (grid (floodFill row col tc rc s)) \<le> targetCount tc (grid s)"
proof (induction row col tc rc s rule: floodFill.pinduct)
  case (1 row col tc rc s)
  show ?case
  proof (cases "tc = rc \<or> (row < 0 \<or> row \<ge> gridHeight s \<or> col < 0 \<or> col \<ge> gridWidth s)
                 \<or> getCell (grid s) row col \<noteq> Some tc")
    case True
    then show ?thesis using "1.hyps" by (auto simp: floodFill.psimps)
  next
    case False
    let ?s0 = "s\<lparr>grid := setCell (grid s) row col rc\<rparr>"
    let ?s1 = "floodFill (row - 1) col tc rc ?s0"
    let ?s2 = "floodFill (row + 1) col tc rc ?s1"
    let ?s3 = "floodFill row (col - 1) tc rc ?s2"
    from False have a: "tc \<noteq> rc"
      "\<not> (row < 0 \<or> row \<ge> gridHeight s \<or> col < 0 \<or> col \<ge> gridWidth s)"
      "\<not> getCell (grid s) row col \<noteq> Some tc" by auto
    have e: "floodFill row col tc rc s = floodFill row (col + 1) tc rc ?s3"
      using "1.hyps" a by (simp add: floodFill.psimps Let_def)
    have "targetCount tc (grid ?s0) \<le> targetCount tc (grid s)"
      using targetCount_setCell[of "grid s" row col tc rc] a by simp
    moreover have "targetCount tc (grid ?s1) \<le> targetCount tc (grid ?s0)"
      using "1.IH"(1)[OF a refl] .
    moreover have "targetCount tc (grid ?s2) \<le> targetCount tc (grid ?s1)"
      using "1.IH"(2)[OF a refl refl] .
    moreover have "targetCount tc (grid ?s3) \<le> targetCount tc (grid ?s2)"
      using "1.IH"(3)[OF a refl refl refl] .
    moreover have "targetCount tc (grid (floodFill row (col + 1) tc rc ?s3))
                     \<le> targetCount tc (grid ?s3)"
      using "1.IH"(4)[OF a refl refl refl refl] .
    ultimately show ?thesis using e by simp
  qed
qed

termination floodFill
proof (relation "measure (\<lambda>(row, col, tc, rc, s). targetCount tc (grid s))", goal_cases)
  case 1
  then show ?case by simp
next
  case (2 row col tc rc s x)
  then show ?case using targetCount_setCell[of "grid s" row col tc rc] by simp
next
  case (3 row col tc rc s x xa)
  then show ?case
    using targetCount_setCell[of "grid s" row col tc rc]
      floodFill_count_le[of "row - 1" col tc rc x]
    by simp
next
  case (4 row col tc rc s x xa xb)
  then show ?case
    using targetCount_setCell[of "grid s" row col tc rc]
      floodFill_count_le[of "row - 1" col tc rc x]
      floodFill_count_le[of "row + 1" col tc rc xa]
    by simp
next
  case (5 row col tc rc s x xa xb xc)
  then show ?case
    using targetCount_setCell[of "grid s" row col tc rc]
      floodFill_count_le[of "row - 1" col tc rc x]
      floodFill_count_le[of "row + 1" col tc rc xa]
      floodFill_count_le[of row "col - 1" tc rc xb]
    by simp
qed

declare floodFill.simps [simp del]

section \<open>Flood fill: termination and effect\<close>

lemma floodFill_total: "floodFill_dom (row, col, tc, rc, s)"
proof (induction row col tc rc s rule: floodFill.induct)
  case (1 row col tc rc s)
  show ?case
    by (rule floodFill.domintros) (use 1 in auto)
qed

lemma floodFill_stop:
  "tc = rc \<or> \<not> inBounds s row col \<or> getCell (grid s) row col \<noteq> Some tc \<Longrightarrow>
     floodFill row col tc rc s = s"
  by (subst floodFill.simps) (auto simp: inBounds_def)

lemma floodFill_go:
  "tc \<noteq> rc \<Longrightarrow> inBounds s row col \<Longrightarrow> getCell (grid s) row col = Some tc \<Longrightarrow>
     floodFill row col tc rc s =
       floodFill row (col + 1) tc rc
         (floodFill row (col - 1) tc rc
           (floodFill (row + 1) col tc rc
             (floodFill (row - 1) col tc rc (s\<lparr>grid := setCell (grid s) row col rc\<rparr>))))"
  by (subst floodFill.simps) (auto simp: inBounds_def Let_def)

lemma getCell_Some:
  "getCell g row col = Some c0 \<Longrightarrow>
     0 \<le> row \<and> nat row < length g \<and> 0 \<le> col \<and> nat col < length (g ! nat row)"
  by (simp add: getCell_def split: if_splits)

lemma getCell_setCell:
  assumes "getCell g row col = Some c0"
  shows "getCell (setCell g row col v) r c = (if r = row \<and> c = col then Some v else getCell g r c)"
proof -
  note b = getCell_Some[OF assms]
  show ?thesis
  proof (cases "r = row")
    case True
    show ?thesis
    proof (cases "c = col")
      case True
      then show ?thesis using \<open>r = row\<close> b by (simp add: getCell_def setCell_def)
    next
      case False
      then have "0 \<le> c \<Longrightarrow> nat c \<noteq> nat col" using b by auto
      then show ?thesis using \<open>r = row\<close> False b by (auto simp: getCell_def setCell_def)
    qed
  next
    case False
    then have "0 \<le> r \<Longrightarrow> nat r \<noteq> nat row" using b by auto
    then show ?thesis using False b by (auto simp: getCell_def setCell_def)
  qed
qed

lemma map_length_setCell: "map length (setCell g row col v) = map length g"
  unfolding setCell_def
  by (cases "nat row < length g") (simp_all add: map_update list_update_same_conv list_update_beyond)

lemma floodFill_only_grid: "\<exists>g. floodFill row col tc rc s = s\<lparr>grid := g\<rparr>"
proof (induction row col tc rc s rule: floodFill.induct)
  case (1 row col tc rc s)
  show ?case
  proof (cases "tc = rc \<or> \<not> inBounds s row col \<or> getCell (grid s) row col \<noteq> Some tc")
    case True
    then have "floodFill row col tc rc s = s\<lparr>grid := grid s\<rparr>" by (simp add: floodFill_stop)
    then show ?thesis by blast
  next
    case False
    then have a: "tc \<noteq> rc" "\<not> (row < 0 \<or> row \<ge> gridHeight s \<or> col < 0 \<or> col \<ge> gridWidth s)"
      "\<not> getCell (grid s) row col \<noteq> Some tc" by (auto simp: inBounds_def)
    let ?s0 = "s\<lparr>grid := setCell (grid s) row col rc\<rparr>"
    let ?s1 = "floodFill (row - 1) col tc rc ?s0"
    let ?s2 = "floodFill (row + 1) col tc rc ?s1"
    let ?s3 = "floodFill row (col - 1) tc rc ?s2"
    let ?s4 = "floodFill row (col + 1) tc rc ?s3"
    from "1.IH"(1)[OF a refl] obtain g1 where 1: "?s1 = ?s0\<lparr>grid := g1\<rparr>" by blast
    from "1.IH"(2)[OF a refl refl] obtain g2 where 2: "?s2 = ?s1\<lparr>grid := g2\<rparr>" by blast
    from "1.IH"(3)[OF a refl refl refl] obtain g3 where 3: "?s3 = ?s2\<lparr>grid := g3\<rparr>" by blast
    from "1.IH"(4)[OF a refl refl refl refl] obtain g4 where 4: "?s4 = ?s3\<lparr>grid := g4\<rparr>" by blast
    have "?s4 = s\<lparr>grid := g4\<rparr>"
      by (subst 4, subst 3, subst 2, subst 1) simp
    moreover have "floodFill row col tc rc s = ?s4"
      using False by (simp add: floodFill_go)
    ultimately show ?thesis by metis
  qed
qed

lemma floodFill_dims:
  "gridHeight (floodFill row col tc rc s) = gridHeight s"
  "gridWidth (floodFill row col tc rc s) = gridWidth s"
  "inBounds (floodFill row col tc rc s) = inBounds s"
proof -
  obtain g where "floodFill row col tc rc s = s\<lparr>grid := g\<rparr>"
    using floodFill_only_grid by blast
  then show "gridHeight (floodFill row col tc rc s) = gridHeight s"
    "gridWidth (floodFill row col tc rc s) = gridWidth s"
    "inBounds (floodFill row col tc rc s) = inBounds s"
    by (simp_all add: inBounds_def fun_eq_iff)
qed

lemma repaints_refl: "repaints tc rc g g"
  by (simp add: repaints_def)

lemma repaints_trans:
  "repaints tc rc g g' \<Longrightarrow> repaints tc rc g' g'' \<Longrightarrow> repaints tc rc g g''"
  unfolding repaints_def by (intro conjI allI) (simp, metis)

lemma repaints_setCell:
  "getCell g row col = Some tc \<Longrightarrow> repaints tc rc g (setCell g row col rc)"
  unfolding repaints_def by (simp add: map_length_setCell getCell_setCell)

lemma repaints_stable:
  "repaints tc rc g g' \<Longrightarrow> tc \<noteq> rc \<Longrightarrow> getCell g r c \<noteq> Some tc \<Longrightarrow> getCell g' r c \<noteq> Some tc"
  unfolding repaints_def by metis

lemma floodFill_repaints:
  "repaints tc rc (grid s) (grid (floodFill row col tc rc s))"
proof (induction row col tc rc s rule: floodFill.induct)
  case (1 row col tc rc s)
  show ?case
  proof (cases "tc = rc \<or> \<not> inBounds s row col \<or> getCell (grid s) row col \<noteq> Some tc")
    case True
    then show ?thesis by (simp add: floodFill_stop repaints_refl)
  next
    case False
    then have a: "tc \<noteq> rc" "\<not> (row < 0 \<or> row \<ge> gridHeight s \<or> col < 0 \<or> col \<ge> gridWidth s)"
      "\<not> getCell (grid s) row col \<noteq> Some tc" by (auto simp: inBounds_def)
    let ?s0 = "s\<lparr>grid := setCell (grid s) row col rc\<rparr>"
    let ?s1 = "floodFill (row - 1) col tc rc ?s0"
    let ?s2 = "floodFill (row + 1) col tc rc ?s1"
    let ?s3 = "floodFill row (col - 1) tc rc ?s2"
    let ?s4 = "floodFill row (col + 1) tc rc ?s3"
    have e: "floodFill row col tc rc s = ?s4"
      using False by (simp add: floodFill_go)
    have "repaints tc rc (grid s) (grid ?s0)"
      using a(3) by (simp add: repaints_setCell)
    from repaints_trans[OF this "1.IH"(1)[OF a refl]]
    have "repaints tc rc (grid s) (grid ?s1)" .
    from repaints_trans[OF this "1.IH"(2)[OF a refl refl]]
    have "repaints tc rc (grid s) (grid ?s2)" .
    from repaints_trans[OF this "1.IH"(3)[OF a refl refl refl]]
    have "repaints tc rc (grid s) (grid ?s3)" .
    from repaints_trans[OF this "1.IH"(4)[OF a refl refl refl refl]]
    show ?thesis unfolding e .
  qed
qed

lemma floodFill_target_done:
  assumes "tc \<noteq> rc" "inBounds s row col"
  shows "getCell (grid (floodFill row col tc rc s)) row col \<noteq> Some tc"
proof (cases "getCell (grid s) row col = Some tc")
  case False
  then show ?thesis by (simp add: floodFill_stop)
next
  case True
  let ?s0 = "s\<lparr>grid := setCell (grid s) row col rc\<rparr>"
  let ?s1 = "floodFill (row - 1) col tc rc ?s0"
  let ?s2 = "floodFill (row + 1) col tc rc ?s1"
  let ?s3 = "floodFill row (col - 1) tc rc ?s2"
  let ?s4 = "floodFill row (col + 1) tc rc ?s3"
  have e: "floodFill row col tc rc s = ?s4"
    using assms True by (simp add: floodFill_go)
  have "getCell (grid ?s0) row col \<noteq> Some tc"
    using True assms(1) by (simp add: getCell_setCell)
  then have "getCell (grid ?s1) row col \<noteq> Some tc"
    using repaints_stable[OF floodFill_repaints assms(1)] by blast
  then have "getCell (grid ?s2) row col \<noteq> Some tc"
    using repaints_stable[OF floodFill_repaints assms(1)] by blast
  then have "getCell (grid ?s3) row col \<noteq> Some tc"
    using repaints_stable[OF floodFill_repaints assms(1)] by blast
  then have "getCell (grid ?s4) row col \<noteq> Some tc"
    using repaints_stable[OF floodFill_repaints assms(1)] by blast
  then show ?thesis unfolding e .
qed

lemma fillClosed_refl: "fillClosed tc s s"
  unfolding fillClosed_def by blast

lemma fillClosed_trans:
  assumes "tc \<noteq> rc" "repaints tc rc (grid s1) (grid s2)" "inBounds s1 = inBounds s0"
    and "fillClosed tc s0 s1" "fillClosed tc s1 s2"
  shows "fillClosed tc s0 s2"
  unfolding fillClosed_def
proof (intro allI impI, elim conjE)
  fix r c r' c'
  assume h: "getCell (grid s0) r c = Some tc" "getCell (grid s2) r c \<noteq> Some tc"
    "neighbour r c r' c'" "inBounds s0 r' c'"
  show "getCell (grid s2) r' c' \<noteq> Some tc"
  proof (cases "getCell (grid s1) r c = Some tc")
    case True
    then show ?thesis using assms(5) h assms(3) unfolding fillClosed_def by metis
  next
    case False
    then have "getCell (grid s1) r' c' \<noteq> Some tc"
      using assms(4) h unfolding fillClosed_def by metis
    then show ?thesis using repaints_stable[OF assms(2) assms(1)] by blast
  qed
qed

lemma floodFill_closed:
  "tc \<noteq> rc \<Longrightarrow> fillClosed tc s (floodFill row col tc rc s)"
proof (induction row col tc rc s rule: floodFill.induct)
  case (1 row col tc rc s)
  note ne = \<open>tc \<noteq> rc\<close>
  show ?case
  proof (cases "\<not> inBounds s row col \<or> getCell (grid s) row col \<noteq> Some tc")
    case True
    then show ?thesis by (simp add: floodFill_stop fillClosed_refl)
  next
    case False
    then have a: "tc \<noteq> rc" "\<not> (row < 0 \<or> row \<ge> gridHeight s \<or> col < 0 \<or> col \<ge> gridWidth s)"
      "\<not> getCell (grid s) row col \<noteq> Some tc" using ne by (auto simp: inBounds_def)
    let ?s0 = "s\<lparr>grid := setCell (grid s) row col rc\<rparr>"
    let ?s1 = "floodFill (row - 1) col tc rc ?s0"
    let ?s2 = "floodFill (row + 1) col tc rc ?s1"
    let ?s3 = "floodFill row (col - 1) tc rc ?s2"
    let ?s4 = "floodFill row (col + 1) tc rc ?s3"
    have e: "floodFill row col tc rc s = ?s4"
      using False ne by (simp add: floodFill_go)
    have b0: "inBounds ?s0 = inBounds s" by (simp add: inBounds_def fun_eq_iff)
    have b1: "inBounds ?s1 = inBounds s" using b0 by (simp only: floodFill_dims)
    have b2: "inBounds ?s2 = inBounds s" using b1 by (simp only: floodFill_dims)
    have b3: "inBounds ?s3 = inBounds s" using b2 by (simp only: floodFill_dims)
    have c01: "fillClosed tc ?s0 ?s1" using "1.IH"(1)[OF a refl ne] .
    have c12: "fillClosed tc ?s1 ?s2" using "1.IH"(2)[OF a refl refl ne] .
    have c23: "fillClosed tc ?s2 ?s3" using "1.IH"(3)[OF a refl refl refl ne] .
    have c34: "fillClosed tc ?s3 ?s4" using "1.IH"(4)[OF a refl refl refl refl ne] .
    have c02: "fillClosed tc ?s0 ?s2"
      using fillClosed_trans[OF ne floodFill_repaints _ c01 c12] b1 b0 by simp
    have c03: "fillClosed tc ?s0 ?s3"
      using fillClosed_trans[OF ne floodFill_repaints _ c02 c23] b2 b0 by simp
    have c04: "fillClosed tc ?s0 ?s4"
      using fillClosed_trans[OF ne floodFill_repaints _ c03 c34] b3 b0 by simp
    note st = repaints_stable[OF floodFill_repaints ne]
    have n1: "getCell (grid ?s4) (row - 1) col \<noteq> Some tc" if "inBounds s (row - 1) col"
    proof -
      have "getCell (grid ?s1) (row - 1) col \<noteq> Some tc"
        using floodFill_target_done[OF ne, of ?s0 "row - 1" col] that b0 by simp
      then have "getCell (grid ?s2) (row - 1) col \<noteq> Some tc" using st by blast
      then have "getCell (grid ?s3) (row - 1) col \<noteq> Some tc" using st by blast
      then show ?thesis using st by blast
    qed
    have n2: "getCell (grid ?s4) (row + 1) col \<noteq> Some tc" if "inBounds s (row + 1) col"
    proof -
      have "getCell (grid ?s2) (row + 1) col \<noteq> Some tc"
        using floodFill_target_done[OF ne, of ?s1 "row + 1" col] that b1 by simp
      then have "getCell (grid ?s3) (row + 1) col \<noteq> Some tc" using st by blast
      then show ?thesis using st by blast
    qed
    have n3: "getCell (grid ?s4) row (col - 1) \<noteq> Some tc" if "inBounds s row (col - 1)"
    proof -
      have "getCell (grid ?s3) row (col - 1) \<noteq> Some tc"
        using floodFill_target_done[OF ne, of ?s2 row "col - 1"] that b2 by simp
      then show ?thesis using st by blast
    qed
    have n4: "getCell (grid ?s4) row (col + 1) \<noteq> Some tc" if "inBounds s row (col + 1)"
      using floodFill_target_done[OF ne, of ?s3 row "col + 1"] that b3 by simp
    show ?thesis
      unfolding e fillClosed_def
    proof (intro allI impI, elim conjE)
      fix r c r' c'
      assume h: "getCell (grid s) r c = Some tc" "getCell (grid ?s4) r c \<noteq> Some tc"
        "neighbour r c r' c'" "inBounds s r' c'"
      show "getCell (grid ?s4) r' c' \<noteq> Some tc"
      proof (cases "r = row \<and> c = col")
        case True
        then show ?thesis using h(3,4) n1 n2 n3 n4 unfolding neighbour_def by auto
      next
        case False
        then have "getCell (grid ?s0) r c = Some tc"
          using h(1) a(3) by (auto simp: getCell_setCell)
        then show ?thesis using c04 h(2,3,4) b0 unfolding fillClosed_def by metis
      qed
    qed
  qed
qed


lemma rows_ok_iff: "rows_ok w g \<longleftrightarrow> (\<forall>n \<in> set (map length g). n = w)"
  by (induction g) auto

lemma getCell_in_grid:
  assumes "grid_ok s" "inBounds s r c"
  shows "getCell (grid s) r c = Some (grid s ! nat r ! nat c)"
proof -
  have r: "nat r < length (grid s)" using assms by (auto simp: grid_ok_def inBounds_def)
  then have "length (grid s ! nat r) = nat (gridWidth s)"
    using assms(1) by (simp add: grid_ok_def rows_ok_iff)
  then show ?thesis using assms(2) r by (auto simp: getCell_def inBounds_def)
qed

lemma grid_all_replicate:
  assumes "grid_ok s" "\<forall>r c. inBounds s r c \<longrightarrow> getCell (grid s) r c = Some v"
  shows "grid s = replicate (nat (gridHeight s)) (replicate (nat (gridWidth s)) v)"
proof (rule nth_equalityI)
  show "length (grid s) = length (replicate (nat (gridHeight s)) (replicate (nat (gridWidth s)) v))"
    using assms(1) by (simp add: grid_ok_def)
next
  fix i assume i: "i < length (grid s)"
  then have ih: "i < nat (gridHeight s)" using assms(1) by (simp add: grid_ok_def)
  have len: "length (grid s ! i) = nat (gridWidth s)"
    using assms(1) i by (simp add: grid_ok_def rows_ok_iff)
  have "grid s ! i = replicate (nat (gridWidth s)) v"
  proof (rule nth_equalityI)
    show "length (grid s ! i) = length (replicate (nat (gridWidth s)) v)" using len by simp
  next
    fix j assume j: "j < length (grid s ! i)"
    then have "inBounds s (int i) (int j)" using ih len by (auto simp: inBounds_def)
    then have "getCell (grid s) (int i) (int j) = Some v" using assms(2) by blast
    then show "grid s ! i ! j = replicate (nat (gridWidth s)) v ! j"
      using j len by (simp add: getCell_def split: if_splits)
  qed
  then show "grid s ! i = replicate (nat (gridHeight s)) (replicate (nat (gridWidth s)) v) ! i"
    using ih by simp
qed

lemma floodFill_grid_ok: "grid_ok s \<Longrightarrow> grid_ok (floodFill row col tc rc s)"
proof -
  assume a: "grid_ok s"
  have m: "map length (grid (floodFill row col tc rc s)) = map length (grid s)"
    using floodFill_repaints[of tc rc s row col] by (simp add: repaints_def)
  then have "length (grid (floodFill row col tc rc s)) = length (grid s)"
    using map_eq_imp_length_eq by blast
  then show ?thesis using a m by (simp add: grid_ok_def rows_ok_iff floodFill_dims)
qed

lemma int_interval_induct:
  fixes a lo hi x :: int
  assumes "lo \<le> a" "a < hi" "P a"
    and up: "\<And>y. lo \<le> y \<Longrightarrow> y + 1 < hi \<Longrightarrow> P y \<Longrightarrow> P (y + 1)"
    and down: "\<And>y. lo \<le> y - 1 \<Longrightarrow> y < hi \<Longrightarrow> P y \<Longrightarrow> P (y - 1)"
    and "lo \<le> x" "x < hi"
  shows "P x"
proof (cases "a \<le> x")
  case True
  have "x < hi \<longrightarrow> P x"
    using True
  proof (induction x rule: int_ge_induct)
    case base
    then show ?case using assms(3) by simp
  next
    case (step i)
    then show ?case using up[of i] assms(1) by auto
  qed
  then show ?thesis using assms by simp
next
  case False
  then have le: "x \<le> a" by simp
  have "lo \<le> x \<longrightarrow> P x"
    using le
  proof (induction x rule: int_le_induct)
    case base
    then show ?case using assms(3) by simp
  next
    case (step i)
    then show ?case using down[of i] assms(2) by auto
  qed
  then show ?thesis using assms by simp
qed

lemma floodFill_uniform:
  assumes ok: "grid_ok s"
    and uni: "\<forall>r c. inBounds s r c \<longrightarrow> getCell (grid s) r c = Some tc"
    and ne: "tc \<noteq> rc" and tgt: "inBounds s row col"
  shows "inBounds s r c \<Longrightarrow> getCell (grid (floodFill row col tc rc s)) r c = Some rc"
proof -
  let ?s' = "floodFill row col tc rc s"
  let ?P = "\<lambda>r c. getCell (grid ?s') r c = Some rc"
  have rep: "repaints tc rc (grid s) (grid ?s')" by (rule floodFill_repaints)
  have each: "getCell (grid ?s') i j = Some tc \<or> ?P i j" if "inBounds s i j" for i j
    using rep uni that unfolding repaints_def by metis
  have base: "?P row col"
    using floodFill_target_done[OF ne tgt] each[OF tgt] by blast
  have step: "?P i' j'" if "?P i j" "inBounds s i j" "neighbour i j i' j'" "inBounds s i' j'" for i j i' j'
  proof -
    have "getCell (grid s) i j = Some tc" using uni that(2) by blast
    moreover have "getCell (grid ?s') i j \<noteq> Some tc" using that(1) ne by simp
    ultimately have "getCell (grid ?s') i' j' \<noteq> Some tc"
      using floodFill_closed[OF ne, of s row col] that(3,4) unfolding fillClosed_def by metis
    then show ?thesis using each[OF that(4)] by blast
  qed
  have rowwalk: "?P row j" if "0 \<le> j" "j < gridWidth s" for j
  proof (rule int_interval_induct[where P = "?P row" and lo = 0 and hi = "gridWidth s" and a = col])
    show "0 \<le> col" "col < gridWidth s" using tgt by (simp_all add: inBounds_def)
    show "?P row col" by (rule base)
    show "0 \<le> j" "j < gridWidth s" by (rule that)+
  next
    fix y assume "0 \<le> y" "y + 1 < gridWidth s" "?P row y"
    then show "?P row (y + 1)"
      using step[of row y row "y + 1"] tgt by (simp add: inBounds_def neighbour_def)
  next
    fix y assume "0 \<le> y - 1" "y < gridWidth s" "?P row y"
    then show "?P row (y - 1)"
      using step[of row y row "y - 1"] tgt by (simp add: inBounds_def neighbour_def)
  qed
  assume rc: "inBounds s r c"
  then have c: "0 \<le> c" "c < gridWidth s" and r: "0 \<le> r" "r < gridHeight s"
    by (simp_all add: inBounds_def)
  show "?P r c"
  proof (rule int_interval_induct[where P = "\<lambda>i. ?P i c" and lo = 0 and hi = "gridHeight s" and a = row])
    show "0 \<le> row" "row < gridHeight s" using tgt by (simp_all add: inBounds_def)
    show "?P row c" using rowwalk c by blast
    show "0 \<le> r" "r < gridHeight s" by (rule r)+
  next
    fix y assume "0 \<le> y" "y + 1 < gridHeight s" "?P y c"
    then show "?P (y + 1) c"
      using step[of y c "y + 1" c] c by (simp add: inBounds_def neighbour_def)
  next
    fix y assume "0 \<le> y - 1" "y < gridHeight s" "?P y c"
    then show "?P (y - 1) c"
      using step[of y c "y - 1" c] c by (simp add: inBounds_def neighbour_def)
  qed
qed

lemma floodFill_uniform_grid:
  assumes "0 \<le> gridHeight s" "0 \<le> gridWidth s"
    and "grid s = replicate (nat (gridHeight s)) (replicate (nat (gridWidth s)) tc)"
    and "tc \<noteq> rc" "inBounds s row col"
  shows "grid (floodFill row col tc rc s) = replicate (nat (gridHeight s)) (replicate (nat (gridWidth s)) rc)"
proof -
  have ok: "grid_ok s"
    using assms(1,2) by (subst grid_ok_def, subst (1 2) assms(3)) (simp add: rows_ok_iff)
  have uni: "\<forall>r c. inBounds s r c \<longrightarrow> getCell (grid s) r c = Some tc"
  proof (intro allI impI)
    fix r c assume b: "inBounds s r c"
    then have "nat r < nat (gridHeight s)" "nat c < nat (gridWidth s)"
      by (auto simp: inBounds_def)
    then have "replicate (nat (gridHeight s)) (replicate (nat (gridWidth s)) tc) ! nat r ! nat c = tc"
      by simp
    then show "getCell (grid s) r c = Some tc"
      using getCell_in_grid[OF ok b] assms(3) by simp
  qed
  have "\<forall>r c. inBounds (floodFill row col tc rc s) r c \<longrightarrow>
          getCell (grid (floodFill row col tc rc s)) r c = Some rc"
    using floodFill_uniform[OF ok uni assms(4,5)] by (simp add: floodFill_dims)
  from grid_all_replicate[OF floodFill_grid_ok[OF ok] this]
  show ?thesis by (simp add: floodFill_dims)
qed

text \<open>
  C10. The flood fill terminates on every grid, for all coordinates and colours: every
  argument is in the domain of the recursion. A call that passes its three guards (the
  colours differ, the cell is inside the grid and holds the target colour) writes the
  replacement colour at once, which lowers the number of cells holding the target colour;
  no call raises that number; a call stopped by a guard returns the state unchanged.
\<close>

theorem floodFill_terminates:
  "floodFill_dom (row, col, targetColor, replacementColor, s) \<and>
   targetCount targetColor (grid (floodFill row col targetColor replacementColor s))
     \<le> targetCount targetColor (grid s) \<and>
   (targetColor \<noteq> replacementColor \<and> inBounds s row col \<and>
    getCell (grid s) row col = Some targetColor \<longrightarrow>
      targetCount targetColor (setCell (grid s) row col replacementColor)
        < targetCount targetColor (grid s) \<and>
      targetCount targetColor (grid (floodFill row col targetColor replacementColor s))
        < targetCount targetColor (grid s)) \<and>
   (targetColor = replacementColor \<or> \<not> inBounds s row col \<or>
    getCell (grid s) row col \<noteq> Some targetColor \<longrightarrow>
      floodFill row col targetColor replacementColor s = s)"
proof (intro conjI impI)
  show "floodFill_dom (row, col, targetColor, replacementColor, s)"
    by (rule floodFill_total)
  show "targetCount targetColor (grid (floodFill row col targetColor replacementColor s))
          \<le> targetCount targetColor (grid s)"
    by (rule floodFill_count_le[OF floodFill_total])
next
  assume a: "targetColor \<noteq> replacementColor \<and> inBounds s row col \<and>
    getCell (grid s) row col = Some targetColor"
  let ?s0 = "s\<lparr>grid := setCell (grid s) row col replacementColor\<rparr>"
  let ?s1 = "floodFill (row - 1) col targetColor replacementColor ?s0"
  let ?s2 = "floodFill (row + 1) col targetColor replacementColor ?s1"
  let ?s3 = "floodFill row (col - 1) targetColor replacementColor ?s2"
  let ?s4 = "floodFill row (col + 1) targetColor replacementColor ?s3"
  note le = floodFill_count_le[OF floodFill_total]
  show w: "targetCount targetColor (setCell (grid s) row col replacementColor)
          < targetCount targetColor (grid s)"
    using targetCount_setCell[of "grid s" row col targetColor replacementColor] a by auto
  have e: "floodFill row col targetColor replacementColor s = ?s4"
    using a by (simp add: floodFill_go)
  have "targetCount targetColor (grid ?s4) \<le> targetCount targetColor (grid ?s3)" by (rule le)
  also have "\<dots> \<le> targetCount targetColor (grid ?s2)" by (rule le)
  also have "\<dots> \<le> targetCount targetColor (grid ?s1)" by (rule le)
  also have "\<dots> \<le> targetCount targetColor (grid ?s0)" by (rule le)
  also have "\<dots> < targetCount targetColor (grid s)" using w by simp
  finally show "targetCount targetColor (grid (floodFill row col targetColor replacementColor s))
          < targetCount targetColor (grid s)"
    unfolding e .
next
  assume "targetColor = replacementColor \<or> \<not> inBounds s row col \<or>
    getCell (grid s) row col \<noteq> Some targetColor"
  then show "floodFill row col targetColor replacementColor s = s"
    by (rule floodFill_stop)
qed

lemma resizeGrid_fields:
  assumes "8 \<le> n" "n \<le> 64"
  shows "gridWidth (resizeGrid n s) = n" "gridHeight (resizeGrid n s) = n"
    "grid (resizeGrid n s) = replicate (nat n) (replicate (nat n) ''#FFFFFF'')"
    "history (resizeGrid n s) = [replicate (nat n) (replicate (nat n) ''#FFFFFF'')]"
    "historyIndex (resizeGrid n s) = 0"
  using assms
  by (simp_all add: resizeGrid_def initializeGrid_def saveState_def slice0_def MAX_HISTORY_def Let_def)

theorem floodFill_terminates_witness:
  "floodFill_dom (3, 3, ''#FFFFFF'', ''#000000'', resizeGrid 8 initialRefs) \<and>
   targetCount ''#FFFFFF'' (grid (floodFill 3 3 ''#FFFFFF'' ''#000000'' (resizeGrid 8 initialRefs)))
     < targetCount ''#FFFFFF'' (grid (resizeGrid 8 initialRefs)) \<and>
   floodFill 3 3 ''#FFFFFF'' ''#FFFFFF'' (resizeGrid 8 initialRefs) = resizeGrid 8 initialRefs"
proof -
  let ?s = "resizeGrid 8 initialRefs"
  have b: "inBounds ?s 3 3" by (simp add: inBounds_def resizeGrid_fields)
  have g: "getCell (grid ?s) 3 3 = Some ''#FFFFFF''"
    by (simp add: getCell_def resizeGrid_fields)
  have n: "''#FFFFFF'' \<noteq> ''#000000''" by simp
  show ?thesis
    using floodFill_terminates[of 3 3 "''#FFFFFF''" "''#000000''" ?s]
      floodFill_terminates[of 3 3 "''#FFFFFF''" "''#FFFFFF''" ?s] b g n
    by blast
qed

text \<open>
  C9, as the code has it. On an \<open>n \<times> n\<close> grid with \<open>8 \<le> n \<le> 64\<close> whose cells all hold one
  colour string, a flood fill from any cell of the grid with a different replacement
  string leaves all \<open>n * n\<close> cells holding the replacement. The fill compares the strings.
\<close>

theorem floodFill_single_color:
  assumes "8 \<le> n" "n \<le> 64" "gridWidth s = n" "gridHeight s = n"
    and "grid s = replicate (nat n) (replicate (nat n) c0)"
    and "rc \<noteq> c0" "inBounds s row col"
  shows "grid (floodFill row col c0 rc s) = replicate (nat n) (replicate (nat n) rc)"
  using floodFill_uniform_grid[of s c0 rc row col] assms by simp

theorem floodFill_single_color_witness:
  "grid (floodFill 3 3 ''#FFFFFF'' ''#000000'' (resizeGrid 8 initialRefs))
     = replicate 8 (replicate 8 ''#000000'')"
  using floodFill_single_color[of 8 "resizeGrid 8 initialRefs" "''#FFFFFF''" "''#000000''" 3 3]
  by (simp add: resizeGrid_fields inBounds_def)

text \<open>
  C9 in the wording of the specification speaks of colours. On the 8 by 8 grid
  \<open>mixedWhite\<close> every cell is white, 63 cells as \<^verbatim>\<open>#FFFFFF\<close> and cell \<open>(0, 0)\<close> as
  \<^verbatim>\<open>#ffffff\<close>. A fill with black from \<open>(3, 3)\<close> stops at cell \<open>(0, 0)\<close> and leaves it white,
  from the fill tool as well.
\<close>

theorem floodFill_case_counterexample:
  "gridWidth mixedWhite = 8 \<and> gridHeight mixedWhite = 8 \<and>
   list_all (list_all (\<lambda>c. colorValue c = colorValue ''#FFFFFF'')) (grid mixedWhite) \<and>
   colorValue ''#000000'' \<noteq> colorValue ''#FFFFFF'' \<and>
   inBounds mixedWhite 3 3 \<and> getCell (grid mixedWhite) 3 3 = Some ''#FFFFFF'' \<and>
   grid (floodFill 3 3 ''#FFFFFF'' ''#000000'' mixedWhite) =
     (''#ffffff'' # replicate 7 ''#000000'') # replicate 7 (replicate 8 ''#000000'') \<and>
   grid (drawPixel 3 3 (mixedWhite\<lparr>currentTool := Fill, currentColor := ''#000000''\<rparr>)) =
     (''#ffffff'' # replicate 7 ''#000000'') # replicate 7 (replicate 8 ''#000000'') \<and>
   colorValue ''#ffffff'' \<noteq> colorValue ''#000000''"
  by code_simp

section \<open>The history stack\<close>

lemma slice0_all: "e \<ge> int (length xs) \<Longrightarrow> slice0 xs e = xs"
  by (simp add: slice0_def)

lemma slice0_length: "length (slice0 xs e) \<le> length xs"
  by (simp add: slice0_def)

lemma slice0_take: "0 \<le> e \<Longrightarrow> slice0 xs e = take (nat e) xs"
  by (simp add: slice0_def)

lemma saveState_at_newest:
  assumes "at_newest s" "length (history s) \<le> 50"
  shows "history (saveState s) = drop (length (history s) + 1 - 50) (history s @ [grid s])"
    and "at_newest (saveState s)"
    and "grid (saveState s) = grid s"
proof -
  have sl: "slice0 (history s) (historyIndex s + 1) = history s"
    using assms(1) by (simp add: at_newest_def slice0_all)
  have e: "saveState s =
      (if length (history s) = 50 then s\<lparr>history := tl (history s @ [grid s])\<rparr>
       else s\<lparr>history := history s @ [grid s], historyIndex := historyIndex s + 1\<rparr>)"
    using assms(2) by (simp add: saveState_def Let_def sl MAX_HISTORY_def)
  show "grid (saveState s) = grid s"
    by (simp add: e)
  show "at_newest (saveState s)"
    using assms(1) by (simp add: e at_newest_def)
  show "history (saveState s) = drop (length (history s) + 1 - 50) (history s @ [grid s])"
  proof (cases "length (history s) = 50")
    case True
    then show ?thesis by (cases "history s") (simp_all add: e)
  next
    case False
    then show ?thesis using assms(2) by (simp add: e)
  qed
qed

lemma recordEdits_history:
  "at_newest s \<Longrightarrow> length (history s) \<le> 50 \<Longrightarrow>
     history (recordEdits gs s) = drop (length (history s) + length gs - 50) (history s @ gs)
     \<and> at_newest (recordEdits gs s)"
proof (induction gs arbitrary: s)
  case Nil
  then show ?case by (simp add: recordEdits_def)
next
  case (Cons g gs)
  let ?s1 = "saveState (s\<lparr>grid := g\<rparr>)"
  have n: "at_newest (s\<lparr>grid := g\<rparr>)" "length (history (s\<lparr>grid := g\<rparr>)) \<le> 50"
    using Cons.prems by (simp_all add: at_newest_def)
  have h1: "history ?s1 = drop (length (history s) + 1 - 50) (history s @ [g])"
    using saveState_at_newest(1)[OF n] by simp
  have a1: "at_newest ?s1" using saveState_at_newest(2)[OF n] .
  have l1: "length (history ?s1) = min (length (history s) + 1) 50"
    using Cons.prems(2) by (simp add: h1)
  have l1': "length (history ?s1) \<le> 50" using l1 by simp
  have r: "recordEdits (g # gs) s = recordEdits gs ?s1" by (simp add: recordEdits_def)
  show ?case
  proof (cases "length (history s) < 50")
    case True
    then show ?thesis using Cons.IH[OF a1 l1'] r h1 l1 by simp
  next
    case False
    then have len: "length (history s) = 50" using Cons.prems(2) by simp
    then have "history ?s1 = tl (history s) @ [g]"
      using h1 by (cases "history s") (simp_all add: drop_Suc)
    moreover have "drop (length gs) (tl (history s) @ [g] @ gs) = drop (Suc (length gs)) (history s @ g # gs)"
      using len by (cases "history s") (simp_all)
    ultimately show ?thesis using Cons.IH[OF a1 l1'] r l1 len by simp
  qed
qed

lemma recordEdits_grid: "gs \<noteq> [] \<Longrightarrow> grid (recordEdits gs s) = last gs"
proof (induction gs arbitrary: s)
  case Nil then show ?case by simp
next
  case (Cons g gs)
  show ?case
  proof (cases gs)
    case Nil
    then show ?thesis by (simp add: recordEdits_def saveState_def Let_def)
  next
    case (Cons a list)
    then show ?thesis using Cons.IH[of "saveState (s\<lparr>grid := g\<rparr>)"] by (simp add: recordEdits_def)
  qed
qed

lemma initializeGrid_history:
  "history (initializeGrid s) = [replicate (nat (gridHeight s)) (replicate (nat (gridWidth s)) ''#FFFFFF'')]"
  "historyIndex (initializeGrid s) = 0"
  "grid (initializeGrid s) = replicate (nat (gridHeight s)) (replicate (nat (gridWidth s)) ''#FFFFFF'')"
  by (simp_all add: initializeGrid_def saveState_def slice0_def MAX_HISTORY_def Let_def)

lemma undo_iter:
  "int j \<le> historyIndex s \<Longrightarrow>
     (undo ^^ j) s =
       (if j = 0 then s
        else s\<lparr>historyIndex := historyIndex s - int j,
               grid := history s ! nat (historyIndex s - int j)\<rparr>)"
proof (induction j)
  case 0
  then show ?case by simp
next
  case (Suc j)
  then have "int j \<le> historyIndex s" by simp
  from Suc.IH[OF this] Suc.prems show ?case
    by (auto simp: undo_def Let_def algebra_simps)
qed

lemma redo_iter:
  "historyIndex s + int j \<le> int (length (history s)) - 1 \<Longrightarrow>
     (redo ^^ j) s =
       (if j = 0 then s
        else s\<lparr>historyIndex := historyIndex s + int j,
               grid := history s ! nat (historyIndex s + int j)\<rparr>)"
proof (induction j)
  case 0
  then show ?case by simp
next
  case (Suc j)
  then have "historyIndex s + int j \<le> int (length (history s)) - 1" by simp
  from Suc.IH[OF this] Suc.prems show ?case
    by (auto simp: redo_def Let_def algebra_simps)
qed

lemma recordEdits_below_capacity:
  assumes "length gs < 50"
  shows "history (recordEdits gs (initializeGrid s)) = grid (initializeGrid s) # gs"
    and "historyIndex (recordEdits gs (initializeGrid s)) = int (length gs)"
    and "grid (recordEdits gs (initializeGrid s)) = (grid (initializeGrid s) # gs) ! length gs"
proof -
  let ?s0 = "initializeGrid s"
  have n: "at_newest ?s0" "length (history ?s0) \<le> 50"
    by (simp_all add: at_newest_def initializeGrid_history)
  show h: "history (recordEdits gs ?s0) = grid ?s0 # gs"
    using recordEdits_history[OF n, of gs] assms by (simp add: initializeGrid_history)
  show "historyIndex (recordEdits gs ?s0) = int (length gs)"
    using recordEdits_history[OF n, of gs] h by (simp add: at_newest_def)
  show "grid (recordEdits gs ?s0) = (grid ?s0 # gs) ! length gs"
  proof (cases "gs = []")
    case True
    then show ?thesis by (simp add: recordEdits_def)
  next
    case False
    then show ?thesis using recordEdits_grid[OF False, of ?s0] by (simp add: last_conv_nth)
  qed
qed

text \<open>
  C7. The history stack never holds more than 50 entries. When the stack is full and the
  cursor is on its last entry, recording evicts the oldest entry and leaves the cursor
  where it is, on the entry just recorded. After 60 recorded edits the 50 entries are the
  last 50 edits and the cursor is on the most recent one: on an empty stack the 10 oldest
  edits are gone, on a freshly initialised history the initial entry is gone with them.
\<close>

theorem history_capacity:
  "(length (history s) \<le> 50 \<longrightarrow> length (history (saveState s)) \<le> 50) \<and>
   (at_newest s \<and> length (history s) = 50 \<longrightarrow>
      history (saveState s) = tl (history s) @ [grid s] \<and>
      historyIndex (saveState s) = historyIndex s \<and>
      history (saveState s) ! nat (historyIndex (saveState s)) = grid s) \<and>
   (length gs = 60 \<longrightarrow>
      history (recordEdits gs (initializeGrid s)) = drop 10 gs \<and>
      length (history (recordEdits gs (initializeGrid s))) = 50 \<and>
      historyIndex (recordEdits gs (initializeGrid s)) = 49 \<and>
      history (recordEdits gs (initializeGrid s)) ! 49 = last gs \<and>
      grid (recordEdits gs (initializeGrid s)) = last gs) \<and>
   (length gs = 60 \<and> history t = [] \<and> historyIndex t = - 1 \<longrightarrow>
      history (recordEdits gs t) = drop 10 gs \<and>
      historyIndex (recordEdits gs t) = 49)"
proof (intro conjI impI)
  assume "length (history s) \<le> 50"
  then show "length (history (saveState s)) \<le> 50"
    using slice0_length[of "history s" "historyIndex s + 1"]
    by (simp add: saveState_def Let_def MAX_HISTORY_def)
next
  assume a: "at_newest s \<and> length (history s) = 50"
  then have h: "history (saveState s) = tl (history s) @ [grid s]"
    using saveState_at_newest(1)[of s] by (cases "history s") (simp_all add: drop_Suc)
  show "history (saveState s) = tl (history s) @ [grid s]" by (rule h)
  show i: "historyIndex (saveState s) = historyIndex s"
    using a by (simp add: saveState_def Let_def MAX_HISTORY_def at_newest_def slice0_all)
  show "history (saveState s) ! nat (historyIndex (saveState s)) = grid s"
    using a unfolding i h by (simp add: at_newest_def nth_append)
next
  assume l: "length gs = 60"
  let ?s0 = "initializeGrid s"
  have n: "at_newest ?s0" "length (history ?s0) \<le> 50"
    by (simp_all add: at_newest_def initializeGrid_history)
  have h: "history (recordEdits gs ?s0) = drop 10 gs"
    using recordEdits_history[OF n, of gs] l by (simp add: initializeGrid_history)
  have a: "at_newest (recordEdits gs ?s0)" using recordEdits_history[OF n, of gs] by simp
  show "history (recordEdits gs ?s0) = drop 10 gs" by (rule h)
  show len: "length (history (recordEdits gs ?s0)) = 50" using h l by simp
  show "historyIndex (recordEdits gs ?s0) = 49" using a len by (simp add: at_newest_def)
  show "history (recordEdits gs ?s0) ! 49 = last gs" 
    using l unfolding h by (cases gs rule: rev_cases) (simp_all add: nth_append)
  have "gs \<noteq> []" using l by auto
  then show "grid (recordEdits gs ?s0) = last gs" by (rule recordEdits_grid)
next
  assume e: "length gs = 60 \<and> history t = [] \<and> historyIndex t = - 1"
  then have n: "at_newest t" "length (history t) \<le> 50" by (simp_all add: at_newest_def)
  have h: "history (recordEdits gs t) = drop 10 gs"
    using recordEdits_history[OF n, of gs] e by simp
  show "history (recordEdits gs t) = drop 10 gs" by (rule h)
  have "at_newest (recordEdits gs t)" using recordEdits_history[OF n, of gs] by simp
  then show "historyIndex (recordEdits gs t) = 49" using h e by (simp add: at_newest_def)
qed


theorem history_capacity_witness:
  "length (history (saveState initialRefs)) \<le> 50 \<and>
   history (saveState (recordEdits (replicate 49 [[''#000000'']]) (initializeGrid initialRefs)))
     = tl (history (recordEdits (replicate 49 [[''#000000'']]) (initializeGrid initialRefs)))
         @ [[[''#000000'']]] \<and>
   length (history (recordEdits (replicate 60 [[''#000000'']]) (initializeGrid initialRefs))) = 50 \<and>
   historyIndex (recordEdits (replicate 60 [[''#000000'']]) (initializeGrid initialRefs)) = 49"
proof -
  let ?g = "[[''#000000'']]"
  let ?s = "recordEdits (replicate 49 ?g) (initializeGrid initialRefs)"
  have l: "length (replicate 49 ?g) < 50" by simp
  note r = recordEdits_below_capacity[OF l, of initialRefs]
  have a: "at_newest ?s \<and> length (history ?s) = 50"
    using r by (simp add: at_newest_def)
  have g: "grid ?s = ?g"
    using r(3) by simp
  have i: "length (history initialRefs) \<le> 50"
    by (simp add: initialRefs_def)
  have n: "length (replicate 60 ?g) = 60" by simp
  note c1 = history_capacity[of initialRefs "replicate 60 ?g"]
  note c2 = history_capacity[of ?s "replicate 60 ?g"]
  have "length (history (saveState initialRefs)) \<le> 50"
    using c1 i by blast
  moreover have "history (saveState ?s) = tl (history ?s) @ [?g]"
    using c2 a g by metis
  moreover have "length (history (recordEdits (replicate 60 ?g) (initializeGrid initialRefs))) = 50"
    using c1 n by blast
  moreover have "historyIndex (recordEdits (replicate 60 ?g) (initializeGrid initialRefs)) = 49"
    using c1 n by blast
  ultimately show ?thesis by blast
qed

text \<open>
  C6. After \<open>k < 50\<close> recorded edits on a freshly initialised history, \<open>k\<close> undos bring
  back the blank grid, and \<open>k\<close> redos after them bring back the state after the last
  edit. Undo changes nothing when the cursor is on the oldest entry, redo changes nothing
  when it is on the newest.
\<close>

theorem undo_redo_roundtrip:
  "(length gs < 50 \<longrightarrow>
      grid ((undo ^^ length gs) (recordEdits gs (initializeGrid s)))
        = replicate (nat (gridHeight s)) (replicate (nat (gridWidth s)) ''#FFFFFF'') \<and>
      (redo ^^ length gs) ((undo ^^ length gs) (recordEdits gs (initializeGrid s)))
        = recordEdits gs (initializeGrid s)) \<and>
   (historyIndex t = 0 \<longrightarrow> undo t = t) \<and>
   (historyIndex t = int (length (history t)) - 1 \<longrightarrow> redo t = t)"
proof (intro conjI impI)
  assume l: "length gs < 50"
  let ?k = "length gs"
  let ?sk = "recordEdits gs (initializeGrid s)"
  let ?su = "(undo ^^ ?k) ?sk"
  let ?blank = "replicate (nat (gridHeight s)) (replicate (nat (gridWidth s)) ''#FFFFFF'')"
  note r = recordEdits_below_capacity[OF l, of s]
  have "grid ?su = ?blank \<and> (redo ^^ ?k) ?su = ?sk"
  proof (cases "gs = []")
    case True
    then show ?thesis by (simp add: recordEdits_def initializeGrid_history)
  next
    case False
    then have k: "?k \<noteq> 0" by simp
    have u: "?su = ?sk\<lparr>historyIndex := 0, grid := ?blank\<rparr>"
      using undo_iter[of ?k ?sk] r k by (simp add: initializeGrid_history)
    have "historyIndex ?su + int ?k \<le> int (length (history ?su)) - 1"
      unfolding u using r by simp
    from redo_iter[OF this] have "(redo ^^ ?k) ?su = ?sk"
      unfolding u using r k by simp
    then show ?thesis using u by simp
  qed
  then show "grid ?su = ?blank" and "(redo ^^ ?k) ?su = ?sk" by simp_all
next
  assume "historyIndex t = 0"
  then show "undo t = t" by (simp add: undo_def)
next
  assume "historyIndex t = int (length (history t)) - 1"
  then show "redo t = t" by (simp add: redo_def)
qed

theorem undo_redo_roundtrip_witness:
  "grid ((undo ^^ 2) (recordEdits [[[''#000000'']], [[''#FF0000'']]] (initializeGrid initialRefs)))
     = replicate 32 (replicate 32 ''#FFFFFF'') \<and>
   (redo ^^ 2) ((undo ^^ 2) (recordEdits [[[''#000000'']], [[''#FF0000'']]] (initializeGrid initialRefs)))
     = recordEdits [[[''#000000'']], [[''#FF0000'']]] (initializeGrid initialRefs) \<and>
   undo (initializeGrid initialRefs) = initializeGrid initialRefs \<and>
   redo (initializeGrid initialRefs) = initializeGrid initialRefs"
  using undo_redo_roundtrip[of "[[[''#000000'']], [[''#FF0000'']]]" initialRefs
      "initializeGrid initialRefs"]
  by (simp add: initializeGrid_history initialRefs_def eval_nat_numeral)

section \<open>The colour history\<close>

lemma slice0_20: "slice0 xs 20 = take 20 xs"
  by (simp add: slice0_def)

text \<open>
  C8, as the code has it. The colour history has no duplicate string and at most 20
  entries: the initial list has the property and every add keeps it. The added string is at
  the front and occurs once; a string already present is moved, not duplicated; a new
  string is put in front, and when the list is full the last entry (the least recently
  used) is dropped. The add compares the strings.
\<close>

theorem colorHistory_invariant:
  assumes "distinct (colorHistory s)" and "length (colorHistory s) \<le> 20"
  shows "distinct (colorHistory initialRefs) \<and> length (colorHistory initialRefs) \<le> 20 \<and>
         distinct (colorHistory (addToColorHistory c s)) \<and>
         length (colorHistory (addToColorHistory c s)) \<le> 20 \<and>
         hd (colorHistory (addToColorHistory c s)) = c \<and>
         count_list (colorHistory (addToColorHistory c s)) c = 1 \<and>
         (c \<in> set (colorHistory s) \<longrightarrow>
            colorHistory (addToColorHistory c s) = c # filter (\<lambda>x. x \<noteq> c) (colorHistory s) \<and>
            length (colorHistory (addToColorHistory c s)) = length (colorHistory s) \<and>
            set (colorHistory (addToColorHistory c s)) = set (colorHistory s)) \<and>
         (c \<notin> set (colorHistory s) \<longrightarrow>
            colorHistory (addToColorHistory c s) = take 20 (c # colorHistory s)) \<and>
         (c \<notin> set (colorHistory s) \<and> length (colorHistory s) = 20 \<longrightarrow>
            colorHistory (addToColorHistory c s) = c # butlast (colorHistory s))"
proof -
  let ?h = "colorHistory s"
  let ?f = "filter (\<lambda>x. x \<noteq> c) ?h"
  have e: "colorHistory (addToColorHistory c s) = take 20 (c # ?f)"
    by (simp add: addToColorHistory_def Let_def slice0_20)
  have d: "distinct (c # ?f)" using assms(1) by simp
  have t: "take 20 (c # ?f) = c # take 19 ?f"
    by (simp add: take_Cons')
  have 1: "distinct (colorHistory (addToColorHistory c s))"
    unfolding e using d distinct_take by blast
  have 2: "length (colorHistory (addToColorHistory c s)) \<le> 20"
    unfolding e by simp
  have 3: "hd (colorHistory (addToColorHistory c s)) = c"
    unfolding e t by simp
  have "c \<notin> set (take 19 ?f)" using in_set_takeD by fastforce
  then have 4: "count_list (colorHistory (addToColorHistory c s)) c = 1"
    unfolding e t by (simp add: count_list_0_iff)
  have 5: "colorHistory (addToColorHistory c s) = c # ?f \<and>
           length (colorHistory (addToColorHistory c s)) = length ?h \<and>
           set (colorHistory (addToColorHistory c s)) = set ?h" if m: "c \<in> set ?h"
  proof -
    have "length ?f < length ?h" using m by (simp add: length_filter_less)
    then have lf: "length ?f \<le> 19" using assms(2) by simp
    have "Suc (length ?f) = length ?h"
      using m assms(1)
      by (metis (mono_tags, lifting) distinct_remove1_removeAll length_remove1 removeAll_filter_not_eq
          One_nat_def Suc_pred length_pos_if_in_set filter_cong)
    then show ?thesis unfolding e t using lf m by auto
  qed
  have 6: "colorHistory (addToColorHistory c s) = take 20 (c # ?h)" if "c \<notin> set ?h"
  proof -
    have "?f = ?h" using that by (auto simp: filter_id_conv)
    then show ?thesis unfolding e by simp
  qed
  have 7: "colorHistory (addToColorHistory c s) = c # butlast ?h"
    if "c \<notin> set ?h \<and> length ?h = 20"
    using 6 that by (simp add: take_Cons' butlast_conv_take)
  have 0: "distinct (colorHistory initialRefs) \<and> length (colorHistory initialRefs) \<le> 20"
    by (simp add: initialRefs_def)
  show ?thesis using 0 1 2 3 4 5 6 7 by blast
qed

theorem colorHistory_invariant_witness:
  "distinct (colorHistory initialRefs) \<and> length (colorHistory initialRefs) \<le> 20 \<and>
   colorHistory (addToColorHistory ''#FFFFFF'' initialRefs) = [''#FFFFFF'', ''#000000''] \<and>
   distinct (colorHistory (addToColorHistory ''#FFFFFF'' initialRefs))"
  using colorHistory_invariant[of initialRefs "''#FFFFFF''"]
  by (simp add: initialRefs_def)

text \<open>
  C8 in the wording of the specification speaks of colours. With white picked in the colour
  input, one pencil stamp on the startup grid puts \<^verbatim>\<open>#ffffff\<close> in front of the seeded
  \<^verbatim>\<open>#000000\<close> and \<^verbatim>\<open>#FFFFFF\<close>: the list then holds white twice.
\<close>

theorem colorHistory_case_counterexample:
  "colorHistory (drawPixel 0 0 whitePencil) = [''#ffffff'', ''#000000'', ''#FFFFFF''] \<and>
   colorValue ''#ffffff'' = colorValue ''#FFFFFF'' \<and>
   \<not> distinct (map colorValue (colorHistory (drawPixel 0 0 whitePencil)))"
  by code_simp

section \<open>Brush stamping\<close>

lemma paintCells_simps:
  "paintCells [] v g = g"
  "paintCells ((r, c) # cells) v g = paintCells cells v (setCell g r c v)"
  by (simp_all add: paintCells_def)

lemma getCell_paintCells:
  "(\<forall>p \<in> set cells. getCell g (fst p) (snd p) \<noteq> None) \<Longrightarrow>
     getCell (paintCells cells v g) i j = (if (i, j) \<in> set cells then Some v else getCell g i j)"
proof (induction cells arbitrary: g)
  case Nil
  then show ?case by (simp add: paintCells_simps)
next
  case (Cons p cells)
  obtain r c where p: "p = (r, c)" by (cases p)
  from Cons.prems obtain c0 where c0: "getCell g r c = Some c0" by (auto simp: p)
  note sc = getCell_setCell[OF c0]
  have "\<forall>q \<in> set cells. getCell (setCell g r c v) (fst q) (snd q) \<noteq> None"
    using Cons.prems by (simp add: sc)
  from Cons.IH[OF this] show ?case
    by (auto simp: p paintCells_simps sc)
qed

lemma map_length_paintCells: "map length (paintCells cells v g) = map length g"
  by (induction cells arbitrary: g) (auto simp: paintCells_simps map_length_setCell)

lemma mem_brushCells:
  "(i, j) \<in> set (brushCells s row col) \<longleftrightarrow> inBounds s i j \<and> inBrush s row col i j"
proof -
  let ?lo = "- (brushSize s div 2)"
  let ?hi = "brushSize s - brushSize s div 2 - 1"
  have m: "(i, j) \<in> set (brushCells s row col) \<longleftrightarrow>
      (\<exists>r\<in>{?lo..?hi}. i = row + r \<and>
         (\<exists>c\<in>{?lo..?hi} \<inter> {c. inBounds s (row + r) (col + c)}. j = col + c))"
    by (simp add: brushCells_def Let_def)
  show ?thesis
    unfolding m
  proof
    assume "\<exists>r\<in>{?lo..?hi}. i = row + r \<and>
         (\<exists>c\<in>{?lo..?hi} \<inter> {c. inBounds s (row + r) (col + c)}. j = col + c)"
    then obtain r c where "r \<in> {?lo..?hi}" "i = row + r" "c \<in> {?lo..?hi}"
      "inBounds s (row + r) (col + c)" "j = col + c" by blast
    then show "inBounds s i j \<and> inBrush s row col i j"
      by (simp add: inBrush_def)
  next
    assume a: "inBounds s i j \<and> inBrush s row col i j"
    have r: "i - row \<in> {?lo..?hi}" using a by (auto simp: inBrush_def)
    have c: "j - col \<in> {?lo..?hi} \<inter> {c. inBounds s (row + (i - row)) (col + c)}"
      using a by (auto simp: inBrush_def)
    show "\<exists>r\<in>{?lo..?hi}. i = row + r \<and>
         (\<exists>c\<in>{?lo..?hi} \<inter> {c. inBounds s (row + r) (col + c)}. j = col + c)"
      by (rule bexI[OF _ r], rule conjI, simp, rule bexI[OF _ c], simp)
  qed
qed

lemma addToColorHistory_fields:
  "grid (addToColorHistory c s) = grid s"
  "gridHeight (addToColorHistory c s) = gridHeight s"
  "gridWidth (addToColorHistory c s) = gridWidth s"
  "brushSize (addToColorHistory c s) = brushSize s"
  "history (addToColorHistory c s) = history s"
  "historyIndex (addToColorHistory c s) = historyIndex s"
  "currentTool (addToColorHistory c s) = currentTool s"
  "currentColor (addToColorHistory c s) = currentColor s"
  "isDrawing (addToColorHistory c s) = isDrawing s"
  by (simp_all add: addToColorHistory_def Let_def)

lemma brushCells_addToColorHistory:
  "brushCells (addToColorHistory c s) row col = brushCells s row col"
  by (simp add: brushCells_def inBounds_def addToColorHistory_fields)

lemma drawPixel_stamp:
  assumes "inBounds s row col" "currentTool s = Pencil \<or> currentTool s = Eraser"
  shows "grid (drawPixel row col s) = paintCells (brushCells s row col) (stampColor s) (grid s)"
  using assms
  by (auto simp: drawPixel_def inBounds_def stampColor_def Let_def addToColorHistory_fields
      brushCells_addToColorHistory)

lemma upto_m1_1: "[-1..1::int] = [-1, 0, 1]"
  by (simp add: upto_rec1)

lemma upto_m1_0: "[-1..0::int] = [-1, 0]"
  by (simp add: upto_rec1)

lemma drawPixel_stamp_dims:
  assumes "currentTool s = Pencil \<or> currentTool s = Eraser"
  shows "gridHeight (drawPixel row col s) = gridHeight s" "gridWidth (drawPixel row col s) = gridWidth s"
  using assms by (auto simp: drawPixel_def Let_def addToColorHistory_def)

lemma initializeGrid_fields:
  "gridWidth (initializeGrid s) = gridWidth s" "gridHeight (initializeGrid s) = gridHeight s"
  "currentColor (initializeGrid s) = currentColor s" "currentTool (initializeGrid s) = currentTool s"
  "brushSize (initializeGrid s) = brushSize s" "isDrawing (initializeGrid s) = isDrawing s"
  "colorHistory (initializeGrid s) = colorHistory s"
  by (simp_all add: initializeGrid_def saveState_def Let_def)

lemma initializeGrid_ok: "0 \<le> gridHeight s \<Longrightarrow> 0 \<le> gridWidth s \<Longrightarrow> grid_ok (initializeGrid s)"
  by (simp add: grid_ok_def initializeGrid_fields initializeGrid_history rows_ok_iff)

lemma startup_fields:
  "gridWidth startup = 32" "gridHeight startup = 32"
  "grid startup = replicate 32 (replicate 32 ''#FFFFFF'')"
  "history startup = [replicate 32 (replicate 32 ''#FFFFFF'')]" "historyIndex startup = 0"
  "currentColor startup = ''#000000''" "currentTool startup = Pencil" "brushSize startup = 1"
  "isDrawing startup = False"
  by (simp_all add: startup_def initializeGrid_fields initializeGrid_history initialRefs_def)

lemma startup_ok: "grid_ok startup"
  unfolding startup_def by (rule initializeGrid_ok) (simp_all add: initialRefs_def)

text \<open>
  C5. For a brush size from 1 to 5 and a target cell inside the grid, one pencil or eraser
  stamp writes exactly the cells \<open>(row + r, col + c)\<close> inside the grid with \<open>r\<close> and \<open>c\<close>
  in \<open>[-floor (b/2), b - floor (b/2))\<close> and leaves every other cell as it was. With size 3
  at \<open>(5, 5)\<close> on a grid of at least 7 rows and columns these are the 9 cells of rows and
  columns 4 to 6; with size 3 at the corner \<open>(0, 0)\<close> they are the 4 cells inside the
  grid; with size 2 at \<open>(5, 5)\<close> they are rows 4 to 5 and columns 4 to 5.
\<close>

theorem brush_stamp:
  assumes "grid_ok s" and "1 \<le> brushSize s" and "brushSize s \<le> 5" and "inBounds s row col"
    and "currentTool s = Pencil \<or> currentTool s = Eraser"
  shows "grid (drawPixel row col s) = paintCells (brushCells s row col) (stampColor s) (grid s) \<and>
     set (brushCells s row col) = {(i, j). inBounds s i j \<and> inBrush s row col i j} \<and>
     (\<forall>i j. inBounds s i j \<longrightarrow>
        getCell (grid (drawPixel row col s)) i j =
          (if inBrush s row col i j then Some (stampColor s) else getCell (grid s) i j)) \<and>
     grid_ok (drawPixel row col s) \<and>
     (brushSize s = 3 \<and> 7 \<le> gridHeight s \<and> 7 \<le> gridWidth s \<longrightarrow>
        brushCells s 5 5 = [(4,4), (4,5), (4,6), (5,4), (5,5), (5,6), (6,4), (6,5), (6,6)]) \<and>
     (brushSize s = 3 \<and> 2 \<le> gridHeight s \<and> 2 \<le> gridWidth s \<longrightarrow>
        brushCells s 0 0 = [(0,0), (0,1), (1,0), (1,1)]) \<and>
     (brushSize s = 2 \<and> 6 \<le> gridHeight s \<and> 6 \<le> gridWidth s \<longrightarrow>
        brushCells s 5 5 = [(4,4), (4,5), (5,4), (5,5)])"
proof -
  let ?g' = "grid (drawPixel row col s)"
  have g: "?g' = paintCells (brushCells s row col) (stampColor s) (grid s)"
    using assms(4,5) by (rule drawPixel_stamp)
  have st: "set (brushCells s row col) = {(i, j). inBounds s i j \<and> inBrush s row col i j}"
    using mem_brushCells[of _ _ s row col] by auto
  have inside: "\<forall>p \<in> set (brushCells s row col). getCell (grid s) (fst p) (snd p) \<noteq> None"
    using getCell_in_grid[OF assms(1)] by (auto simp: mem_brushCells)
  have cells: "\<forall>i j. inBounds s i j \<longrightarrow>
        getCell ?g' i j = (if inBrush s row col i j then Some (stampColor s) else getCell (grid s) i j)"
    unfolding g getCell_paintCells[OF inside] by (simp add: mem_brushCells)
  have "map length ?g' = map length (grid s)"
    unfolding g by (rule map_length_paintCells)
  moreover from this have "length ?g' = length (grid s)"
    using map_eq_imp_length_eq by blast
  ultimately have ok: "grid_ok (drawPixel row col s)"
    using assms(1) by (simp add: grid_ok_def rows_ok_iff drawPixel_stamp_dims[OF assms(5)])
  have e1: "brushSize s = 3 \<and> 7 \<le> gridHeight s \<and> 7 \<le> gridWidth s \<longrightarrow>
        brushCells s 5 5 = [(4,4), (4,5), (4,6), (5,4), (5,5), (5,6), (6,4), (6,5), (6,6)]"
    by (simp add: brushCells_def Let_def inBounds_def upto_m1_1)
  have e2: "brushSize s = 3 \<and> 2 \<le> gridHeight s \<and> 2 \<le> gridWidth s \<longrightarrow>
        brushCells s 0 0 = [(0,0), (0,1), (1,0), (1,1)]"
    by (simp add: brushCells_def Let_def inBounds_def upto_m1_1)
  have e3: "brushSize s = 2 \<and> 6 \<le> gridHeight s \<and> 6 \<le> gridWidth s \<longrightarrow>
        brushCells s 5 5 = [(4,4), (4,5), (5,4), (5,5)]"
    by (simp add: brushCells_def Let_def inBounds_def upto_m1_0)
  show ?thesis by (intro conjI g st cells ok e1 e2 e3)
qed

theorem brush_stamp_witness:
  "brushCells (startup\<lparr>brushSize := 3\<rparr>) 5 5
     = [(4,4), (4,5), (4,6), (5,4), (5,5), (5,6), (6,4), (6,5), (6,6)] \<and>
   getCell (grid (drawPixel 5 5 (startup\<lparr>brushSize := 3\<rparr>))) 6 4 = Some ''#000000'' \<and>
   getCell (grid (drawPixel 5 5 (startup\<lparr>brushSize := 3\<rparr>))) 7 4 = Some ''#FFFFFF'' \<and>
   brushCells (startup\<lparr>brushSize := 3\<rparr>) 0 0 = [(0,0), (0,1), (1,0), (1,1)]"
proof -
  let ?s = "startup\<lparr>brushSize := 3\<rparr>"
  have ok: "grid_ok ?s" using startup_ok by (simp add: grid_ok_def)
  have b: "inBounds ?s 5 5" "inBounds ?s 6 4" "inBounds ?s 7 4"
    by (simp_all add: inBounds_def startup_fields)
  have t: "currentTool ?s = Pencil \<or> currentTool ?s = Eraser" by (simp add: startup_fields)
  have i: "inBrush ?s 5 5 6 4" "\<not> inBrush ?s 5 5 7 4" by (simp_all add: inBrush_def)
  have c: "stampColor ?s = ''#000000''" by (simp add: stampColor_def startup_fields)
  have w: "getCell (grid ?s) 7 4 = Some ''#FFFFFF''" by (simp add: getCell_def startup_fields)
  have d: "7 \<le> gridHeight ?s" "7 \<le> gridWidth ?s" "2 \<le> gridHeight ?s" "2 \<le> gridWidth ?s"
    "brushSize ?s = 3"
    by (simp_all add: startup_fields)
  have th': "1 \<le> brushSize ?s" "brushSize ?s \<le> 5" by simp_all
  note th = brush_stamp[OF ok th' b(1) t]
  note cells = th[THEN conjunct2, THEN conjunct2, THEN conjunct1, rule_format]
  note e1 = th[THEN conjunct2, THEN conjunct2, THEN conjunct2, THEN conjunct2, THEN conjunct1,
      rule_format]
  note e2 = th[THEN conjunct2, THEN conjunct2, THEN conjunct2, THEN conjunct2, THEN conjunct2,
      THEN conjunct1, rule_format]
  have "brushCells ?s 5 5 = [(4,4), (4,5), (4,6), (5,4), (5,5), (5,6), (6,4), (6,5), (6,6)]"
    using e1 d by blast
  moreover have "getCell (grid (drawPixel 5 5 ?s)) 6 4 = Some ''#000000''"
    using cells[OF b(2)] i(1) c by simp
  moreover have "getCell (grid (drawPixel 5 5 ?s)) 7 4 = Some ''#FFFFFF''"
    using cells[OF b(3)] i(2) w by simp
  moreover have "brushCells ?s 0 0 = [(0,0), (0,1), (1,0), (1,1)]"
    using e2 d by blast
  ultimately show ?thesis by blast
qed

section \<open>Tools, gestures and the history\<close>

lemma floodFill_fields:
  "history (floodFill row col tc rc s) = history s"
  "historyIndex (floodFill row col tc rc s) = historyIndex s"
  "colorHistory (floodFill row col tc rc s) = colorHistory s"
  "currentColor (floodFill row col tc rc s) = currentColor s"
  "currentTool (floodFill row col tc rc s) = currentTool s"
  "isDrawing (floodFill row col tc rc s) = isDrawing s"
  "lastDrawnPos (floodFill row col tc rc s) = lastDrawnPos s"
  "brushSize (floodFill row col tc rc s) = brushSize s"
proof -
  obtain g where e: "floodFill row col tc rc s = s\<lparr>grid := g\<rparr>"
    using floodFill_only_grid by blast
  show "history (floodFill row col tc rc s) = history s"
    "historyIndex (floodFill row col tc rc s) = historyIndex s"
    "colorHistory (floodFill row col tc rc s) = colorHistory s"
    "currentColor (floodFill row col tc rc s) = currentColor s"
    "currentTool (floodFill row col tc rc s) = currentTool s"
    "isDrawing (floodFill row col tc rc s) = isDrawing s"
    "lastDrawnPos (floodFill row col tc rc s) = lastDrawnPos s"
    "brushSize (floodFill row col tc rc s) = brushSize s"
    by (simp_all add: e)
qed

lemma saveState_fields:
  "grid (saveState s) = grid s" "isDrawing (saveState s) = isDrawing s"
  "currentColor (saveState s) = currentColor s" "currentTool (saveState s) = currentTool s"
  "gridHeight (saveState s) = gridHeight s" "gridWidth (saveState s) = gridWidth s"
  by (simp_all add: saveState_def Let_def)

lemma saveState_append:
  "at_newest s \<Longrightarrow> length (history s) < 50 \<Longrightarrow>
     history (saveState s) = history s @ [grid s] \<and>
     historyIndex (saveState s) = historyIndex s + 1 \<and> at_newest (saveState s)"
  using saveState_at_newest[of s]
  by (simp add: saveState_def Let_def MAX_HISTORY_def at_newest_def slice0_all)

lemma drawPixel_fill:
  assumes "inBounds s row col" "currentTool s = Fill" "getCell (grid s) row col = Some tc"
  shows "drawPixel row col s =
     saveState (addToColorHistory (currentColor s) (floodFill row col tc (currentColor s) s))"
  using assms by (simp add: drawPixel_def inBounds_def)

lemma drawPixel_eyedropper:
  assumes "inBounds s row col" "currentTool s = Eyedropper" "getCell (grid s) row col = Some c"
  shows "drawPixel row col s = s\<lparr>currentColor := c, currentTool := Pencil\<rparr>"
  using assms by (simp add: drawPixel_def inBounds_def)

lemma drawPixel_keeps_history:
  "currentTool s \<noteq> Fill \<Longrightarrow>
     history (drawPixel row col s) = history s \<and> historyIndex (drawPixel row col s) = historyIndex s"
  by (cases "currentTool s")
     (auto simp: drawPixel_def Let_def addToColorHistory_def split: option.splits)


lemma picker_facts:
  "inBounds picker 0 0" "currentTool picker = Eyedropper"
  "getCell (grid picker) 0 0 = Some ''#FFFFFF''" "grid_ok picker"
  "length (history picker) = 1" "at_newest picker"
  using startup_ok
  by (simp_all add: picker_def inBounds_def getCell_def startup_fields at_newest_def grid_ok_def)

lemma blackFill_fields:
  "gridWidth blackFill = 32" "gridHeight blackFill = 32"
  "grid blackFill = replicate 32 (replicate 32 ''#FFFFFF'')"
  "history blackFill = [replicate 32 (replicate 32 ''#FFFFFF'')]" "historyIndex blackFill = 0"
  "currentColor blackFill = ''#000000''" "currentTool blackFill = Fill"
  by (simp_all add: blackFill_def startup_fields)




text \<open>
  C2, as the code has it. On a cell inside the grid the eyedropper sets the current colour
  to the colour of the cell and the tool to pencil in one step, and that step changes
  neither the grid nor the history stack nor its cursor. The pointer-up that ends the click
  then records one snapshot of the unchanged grid, as it does for every gesture.
\<close>

theorem eyedropper_pick:
  assumes "grid_ok s" and "inBounds s row col" and "currentTool s = Eyedropper"
  shows "getCell (grid s) row col = Some (grid s ! nat row ! nat col) \<and>
     drawPixel row col s = s\<lparr>currentColor := grid s ! nat row ! nat col, currentTool := Pencil\<rparr> \<and>
     grid (drawPixel row col s) = grid s \<and>
     history (drawPixel row col s) = history s \<and>
     historyIndex (drawPixel row col s) = historyIndex s \<and>
     (at_newest s \<and> length (history s) < 50 \<longrightarrow>
        history (stopDrawing (startDrawing row col s)) = history s @ [grid s])"
proof -
  let ?c = "grid s ! nat row ! nat col"
  let ?p = "s\<lparr>isDrawing := True, lastDrawnPos := Some (row, col)\<rparr>"
  have c: "getCell (grid s) row col = Some ?c"
    by (rule getCell_in_grid[OF assms(1,2)])
  have d: "drawPixel row col s = s\<lparr>currentColor := ?c, currentTool := Pencil\<rparr>"
    by (rule drawPixel_eyedropper[OF assms(2,3) c])
  have p: "inBounds ?p row col" "currentTool ?p = Eyedropper" "getCell (grid ?p) row col = Some ?c"
    using assms(2,3) c by (simp_all add: inBounds_def)
  have sd: "startDrawing row col s = ?p\<lparr>currentColor := ?c, currentTool := Pencil\<rparr>"
    unfolding startDrawing_def by (rule drawPixel_eyedropper[OF p])
  have g: "at_newest s \<and> length (history s) < 50 \<longrightarrow>
        history (stopDrawing (startDrawing row col s)) = history s @ [grid s]"
  proof
    assume "at_newest s \<and> length (history s) < 50"
    then have a: "at_newest (startDrawing row col s)" "length (history (startDrawing row col s)) < 50"
      by (simp_all add: sd at_newest_def)
    show "history (stopDrawing (startDrawing row col s)) = history s @ [grid s]"
      using saveState_append[OF a] by (simp add: stopDrawing_def sd)
  qed
  show ?thesis
    by (intro conjI c d g) (simp_all add: d)
qed

theorem eyedropper_pick_witness:
  "drawPixel 0 0 picker = picker\<lparr>currentColor := ''#FFFFFF'', currentTool := Pencil\<rparr> \<and>
   history (drawPixel 0 0 picker) = history picker \<and>
   history (stopDrawing (startDrawing 0 0 picker)) = history picker @ [grid picker]"
proof -
  have c: "grid picker ! nat 0 ! nat 0 = ''#FFFFFF''"
    by (simp add: picker_def startup_fields)
  have a: "at_newest picker \<and> length (history picker) < 50"
    using picker_facts(5,6) by simp
  show ?thesis
    using eyedropper_pick[OF picker_facts(4,1,2)] a unfolding c by blast
qed

text \<open>
  C2 in the wording of the specification also says that the eyedropper gesture adds no
  entry to the history stack. A click with the eyedropper on cell \<open>(0, 0)\<close> of the startup
  grid, pointer-down and pointer-up, takes the history from one entry to two.
\<close>

theorem eyedropper_gesture_counterexample:
  "currentTool picker = Eyedropper \<and> inBounds picker 0 0 \<and>
   length (history picker) = 1 \<and>
   length (history (stopDrawing (startDrawing 0 0 picker))) = 2"
proof -
  let ?p = "picker\<lparr>isDrawing := True, lastDrawnPos := Some (0, 0)\<rparr>"
  have p: "inBounds ?p 0 0" "currentTool ?p = Eyedropper" "getCell (grid ?p) 0 0 = Some ''#FFFFFF''"
    using picker_facts by (simp_all add: inBounds_def)
  have s: "startDrawing 0 0 picker = ?p\<lparr>currentColor := ''#FFFFFF'', currentTool := Pencil\<rparr>"
    unfolding startDrawing_def by (rule drawPixel_eyedropper[OF p])
  have a: "at_newest (startDrawing 0 0 picker)" "length (history (startDrawing 0 0 picker)) < 50"
    using picker_facts(5,6) by (simp_all add: s at_newest_def)
  have e: "stopDrawing (startDrawing 0 0 picker)
      = (saveState (startDrawing 0 0 picker))\<lparr>isDrawing := False, lastDrawnPos := None\<rparr>"
    by (simp add: stopDrawing_def s)
  have "length (history (stopDrawing (startDrawing 0 0 picker))) = 2"
    using saveState_append[OF a] picker_facts(5) by (simp add: e) (simp add: s)
  then show ?thesis using picker_facts(1,2,5) by simp
qed

section \<open>Line interpolation\<close>

text \<open>
  The loop is followed along its major axis. With \<open>A = sx * (col1 - c)\<close> and
  \<open>B = sy * (row1 - r)\<close> the steps still to go, the error term is
  \<open>dx - dy + dy * A - dx * B\<close> at the head of every round; together with the bounds on
  \<open>2 * err\<close> this makes the major axis advance in every round and puts the minor axis on
  its end exactly when the major axis arrives.
\<close>

lemma loop_end:
  "drawLine_loop visit dx dy sx sy row1 col1 err row1 col1 st = Some (visit row1 col1 st)"
  by (subst drawLine_loop.simps) simp

lemma loop_step:
  "r \<noteq> row1 \<or> c \<noteq> col1 \<Longrightarrow>
   drawLine_loop visit dx dy sx sy row1 col1 err r c st =
     drawLine_loop visit dx dy sx sy row1 col1
       ((if 2 * err < dx then (if 2 * err > - dy then err - dy else err) + dx
         else (if 2 * err > - dy then err - dy else err)))
       (if 2 * err < dx then r + sy else r)
       (if 2 * err > - dy then c + sx else c)
       (visit r c st)"
  by (subst drawLine_loop.simps) (auto simp: Let_def)


lemma pinch:
  fixes d k :: int
  assumes "0 < d" "2 * (d * k) < 2 * d" "- d < 2 * (d * k)"
  shows "k = 0"
proof -
  have "d * k < d * 1" using assms(2) by simp
  then have "k < 1" using assms(1) by (simp only: mult_less_cancel_left_pos)
  moreover have "d * (- 1) < d * (2 * k)" using assms(3) by (simp add: algebra_simps)
  then have "- 1 < 2 * k" using assms(1) by (simp only: mult_less_cancel_left_pos)
  ultimately show ?thesis by simp
qed

lemma unit_step:
  fixes s a b :: int
  assumes "s = 1 \<or> s = - 1"
  shows "s * (a - (b + s)) = s * (a - b) - 1" and "s * (a - b) = 0 \<longleftrightarrow> b = a"
    and "\<bar>(b + s) - b\<bar> \<le> 1"
  using assms by auto

lemma connected8_Cons:
  "cells \<noteq> [] \<Longrightarrow> \<bar>fst (hd cells) - fst p\<bar> \<le> 1 \<Longrightarrow> \<bar>snd (hd cells) - snd p\<bar> \<le> 1 \<Longrightarrow>
     connected8 cells \<Longrightarrow> connected8 (p # cells)"
  by (cases cells) auto

lemma visitAll_Cons: "visitAll visit ((r, c) # cells) st = visitAll visit cells (visit r c st)"
  by (simp add: visitAll_def)

lemma loop_major_col:
  fixes dx dy sx sy row1 col1 :: int
  assumes sx: "sx = 1 \<or> sx = - 1" and sy: "sy = 1 \<or> sy = - 1"
    and d: "0 \<le> dy" "dy \<le> dx" "0 < dx"
  shows "int n = sx * (col1 - c) \<Longrightarrow>
         err = dx - dy + dy * (sx * (col1 - c)) - dx * (sy * (row1 - r)) \<Longrightarrow>
         - dy < 2 * err \<Longrightarrow> 2 * err < 3 * dx - 2 * dy \<Longrightarrow>
         \<exists>cells. drawLine_loop record_cell dx dy sx sy row1 col1 err r c acc = Some (acc @ cells) \<and>
                 drawLine_loop visit dx dy sx sy row1 col1 err r c st = Some (visitAll visit cells st) \<and>
                 hd cells = (r, c) \<and> last cells = (row1, col1) \<and> connected8 cells \<and>
                 length cells = Suc n"
proof (induction n arbitrary: err r c acc st)
  case 0
  have c: "c = col1" using "0.prems"(1) unit_step(2)[OF sx, of col1 c] by simp
  let ?B = "sy * (row1 - r)"
  have e: "err = dx - dy - dx * ?B" using "0.prems"(1,2) by simp
  have "?B = 0"
  proof (rule pinch[OF d(3)])
    show "2 * (dx * ?B) < 2 * dx" using "0.prems"(3) d(1) unfolding e by simp
    show "- dx < 2 * (dx * ?B)" using "0.prems"(4) unfolding e by simp
  qed
  then have r: "r = row1" using unit_step(2)[OF sy, of row1 r] by simp
  show ?case
    by (rule exI[of _ "[(r, c)]"]) (simp add: r c loop_end visitAll_def)
next
  case (Suc n)
  let ?A = "sx * (col1 - c)"
  let ?B = "sy * (row1 - r)"
  have ne: "r \<noteq> row1 \<or> c \<noteq> col1" using Suc.prems(1) by auto
  have col: "2 * err > - dy" using Suc.prems(3) by simp
  define r' where "r' = (if 2 * err < dx then r + sy else r)"
  define err' where "err' = (if 2 * err < dx then err - dy + dx else err - dy)"
  have st: "drawLine_loop v dx dy sx sy row1 col1 err r c x
      = drawLine_loop v dx dy sx sy row1 col1 err' r' (c + sx) (v r c x)" for v :: "int \<Rightarrow> int \<Rightarrow> 'b \<Rightarrow> 'b" and x
    using loop_step[OF ne, of v dx dy sx sy err x] col by (simp add: r'_def err'_def)
  have A': "int n = sx * (col1 - (c + sx))"
    using Suc.prems(1) unit_step(1)[OF sx, of col1 c] by simp
  have B': "sy * (row1 - r') = (if 2 * err < dx then ?B - 1 else ?B)"
    using unit_step(1)[OF sy, of row1 r] by (simp add: r'_def)
  have E': "err' = dx - dy + dy * (sx * (col1 - (c + sx))) - dx * (sy * (row1 - r'))"
    unfolding B' unit_step(1)[OF sx] err'_def using Suc.prems(2) by (simp add: algebra_simps)
  have L': "- dy < 2 * err'" using Suc.prems(3,4) d by (auto simp: err'_def)
  have U': "2 * err' < 3 * dx - 2 * dy" using Suc.prems(3,4) d by (auto simp: err'_def)
  from Suc.IH[OF A' E' L' U', of "acc @ [(r, c)]" "visit r c st"]
  obtain cells where cells:
    "drawLine_loop record_cell dx dy sx sy row1 col1 err' r' (c + sx) (acc @ [(r, c)])
       = Some ((acc @ [(r, c)]) @ cells)"
    "drawLine_loop visit dx dy sx sy row1 col1 err' r' (c + sx) (visit r c st)
       = Some (visitAll visit cells (visit r c st))"
    "hd cells = (r', c + sx)" "last cells = (row1, col1)" "connected8 cells" "length cells = Suc n"
    by blast
  have ne': "cells \<noteq> []" using cells(6) by auto
  have adj: "\<bar>fst (hd cells) - fst (r, c)\<bar> \<le> 1" "\<bar>snd (hd cells) - snd (r, c)\<bar> \<le> 1"
    using sx sy by (auto simp: cells(3) r'_def)
  show ?case
  proof (rule exI[of _ "(r, c) # cells"], intro conjI)
    show "drawLine_loop record_cell dx dy sx sy row1 col1 err r c acc = Some (acc @ (r, c) # cells)"
      unfolding st using cells(1) by simp
    show "drawLine_loop visit dx dy sx sy row1 col1 err r c st = Some (visitAll visit ((r, c) # cells) st)"
      unfolding st visitAll_Cons using cells(2) by simp
    show "hd ((r, c) # cells) = (r, c)" by simp
    show "last ((r, c) # cells) = (row1, col1)" using ne' cells(4) by simp
    show "connected8 ((r, c) # cells)" by (rule connected8_Cons[OF ne' adj cells(5)])
    show "length ((r, c) # cells) = Suc (Suc n)" using cells(6) by simp
  qed
qed


lemma loop_major_row:
  fixes dx dy sx sy row1 col1 :: int
  assumes sx: "sx = 1 \<or> sx = - 1" and sy: "sy = 1 \<or> sy = - 1"
    and d: "0 \<le> dx" "dx < dy"
  shows "int n = sy * (row1 - r) \<Longrightarrow>
         err = dx - dy + dy * (sx * (col1 - c)) - dx * (sy * (row1 - r)) \<Longrightarrow>
         2 * err < dx \<Longrightarrow> 2 * dx - 3 * dy < 2 * err \<Longrightarrow>
         \<exists>cells. drawLine_loop record_cell dx dy sx sy row1 col1 err r c acc = Some (acc @ cells) \<and>
                 drawLine_loop visit dx dy sx sy row1 col1 err r c st = Some (visitAll visit cells st) \<and>
                 hd cells = (r, c) \<and> last cells = (row1, col1) \<and> connected8 cells \<and>
                 length cells = Suc n"
proof (induction n arbitrary: err r c acc st)
  case 0
  have dy: "0 < dy" using d by simp
  have r: "r = row1" using "0.prems"(1) unit_step(2)[OF sy, of row1 r] by simp
  let ?A = "sx * (col1 - c)"
  have e: "err = dx - dy + dy * ?A" using "0.prems"(1,2) by simp
  have "?A = 0"
  proof (rule pinch[OF dy])
    show "2 * (dy * ?A) < 2 * dy" using "0.prems"(3) d(1) unfolding e by simp
    show "- dy < 2 * (dy * ?A)" using "0.prems"(4) unfolding e by simp
  qed
  then have c: "c = col1" using unit_step(2)[OF sx, of col1 c] by simp
  show ?case
    by (rule exI[of _ "[(r, c)]"]) (simp add: r c loop_end visitAll_def)
next
  case (Suc n)
  let ?A = "sx * (col1 - c)"
  let ?B = "sy * (row1 - r)"
  have ne: "r \<noteq> row1 \<or> c \<noteq> col1" using Suc.prems(1) by auto
  have row: "2 * err < dx" using Suc.prems(3) by simp
  define c' where "c' = (if 2 * err > - dy then c + sx else c)"
  define err' where "err' = (if 2 * err > - dy then err - dy + dx else err + dx)"
  have st: "drawLine_loop v dx dy sx sy row1 col1 err r c x
      = drawLine_loop v dx dy sx sy row1 col1 err' (r + sy) c' (v r c x)" for v :: "int \<Rightarrow> int \<Rightarrow> 'b \<Rightarrow> 'b" and x
    using loop_step[OF ne, of v dx dy sx sy err x] row by (simp add: c'_def err'_def)
  have B': "int n = sy * (row1 - (r + sy))"
    using Suc.prems(1) unit_step(1)[OF sy, of row1 r] by simp
  have A': "sx * (col1 - c') = (if 2 * err > - dy then ?A - 1 else ?A)"
    using unit_step(1)[OF sx, of col1 c] by (simp add: c'_def)
  have E': "err' = dx - dy + dy * (sx * (col1 - c')) - dx * (sy * (row1 - (r + sy)))"
    unfolding A' unit_step(1)[OF sy] err'_def using Suc.prems(2) by (simp add: algebra_simps)
  have L': "2 * err' < dx" using Suc.prems(3,4) d by (auto simp: err'_def)
  have U': "2 * dx - 3 * dy < 2 * err'" using Suc.prems(3,4) d by (auto simp: err'_def)
  from Suc.IH[OF B' E' L' U', of "acc @ [(r, c)]" "visit r c st"]
  obtain cells where cells:
    "drawLine_loop record_cell dx dy sx sy row1 col1 err' (r + sy) c' (acc @ [(r, c)])
       = Some ((acc @ [(r, c)]) @ cells)"
    "drawLine_loop visit dx dy sx sy row1 col1 err' (r + sy) c' (visit r c st)
       = Some (visitAll visit cells (visit r c st))"
    "hd cells = (r + sy, c')" "last cells = (row1, col1)" "connected8 cells" "length cells = Suc n"
    by blast
  have ne': "cells \<noteq> []" using cells(6) by auto
  have adj: "\<bar>fst (hd cells) - fst (r, c)\<bar> \<le> 1" "\<bar>snd (hd cells) - snd (r, c)\<bar> \<le> 1"
    using sx sy by (auto simp: cells(3) c'_def)
  show ?case
  proof (rule exI[of _ "(r, c) # cells"], intro conjI)
    show "drawLine_loop record_cell dx dy sx sy row1 col1 err r c acc = Some (acc @ (r, c) # cells)"
      unfolding st using cells(1) by simp
    show "drawLine_loop visit dx dy sx sy row1 col1 err r c st = Some (visitAll visit ((r, c) # cells) st)"
      unfolding st visitAll_Cons using cells(2) by simp
    show "hd ((r, c) # cells) = (r, c)" by simp
    show "last ((r, c) # cells) = (row1, col1)" using ne' cells(4) by simp
    show "connected8 ((r, c) # cells)" by (rule connected8_Cons[OF ne' adj cells(5)])
    show "length ((r, c) # cells) = Suc (Suc n)" using cells(6) by simp
  qed
qed

lemma line_cells_exist:
  "\<exists>cells. lineCells row0 col0 row1 col1 = Some cells \<and>
     drawLine_with visit row0 col0 row1 col1 st = Some (visitAll visit cells st) \<and>
     hd cells = (row0, col0) \<and> last cells = (row1, col1) \<and> connected8 cells \<and>
     int (length cells) = max \<bar>col1 - col0\<bar> \<bar>row1 - row0\<bar> + 1"
proof -
  define dx where "dx = \<bar>col1 - col0\<bar>"
  define dy where "dy = \<bar>row1 - row0\<bar>"
  define sx :: int where "sx = (if col0 < col1 then 1 else - 1)"
  define sy :: int where "sy = (if row0 < row1 then 1 else - 1)"
  have sx: "sx = 1 \<or> sx = - 1" and sy: "sy = 1 \<or> sy = - 1" by (simp_all add: sx_def sy_def)
  have A: "sx * (col1 - col0) = dx" by (simp add: sx_def dx_def)
  have B: "sy * (row1 - row0) = dy" by (simp add: sy_def dy_def)
  have E: "dx - dy = dx - dy + dy * (sx * (col1 - col0)) - dx * (sy * (row1 - row0))"
    unfolding A B by (simp add: algebra_simps)
  have nn: "0 \<le> dx" "0 \<le> dy" by (simp_all add: dx_def dy_def)
  have lc: "lineCells row0 col0 row1 col1
      = drawLine_loop record_cell dx dy sx sy row1 col1 (dx - dy) row0 col0 []"
    by (simp add: lineCells_def drawLine_with_def Let_def dx_def dy_def sx_def sy_def)
  have dl: "drawLine_with visit row0 col0 row1 col1 st
      = drawLine_loop visit dx dy sx sy row1 col1 (dx - dy) row0 col0 st"
    by (simp add: drawLine_with_def Let_def dx_def dy_def sx_def sy_def)
  consider (point) "dx = 0" "dy = 0" | (col) "dy \<le> dx" "0 < dx" | (row) "dx < dy"
    using nn by linarith
  then have "\<exists>cells. drawLine_loop record_cell dx dy sx sy row1 col1 (dx - dy) row0 col0 [] = Some ([] @ cells) \<and>
       drawLine_loop visit dx dy sx sy row1 col1 (dx - dy) row0 col0 st = Some (visitAll visit cells st) \<and>
       hd cells = (row0, col0) \<and> last cells = (row1, col1) \<and> connected8 cells \<and>
       int (length cells) = max dx dy + 1"
  proof cases
    case point
    then have "row0 = row1" "col0 = col1" by (simp_all add: dx_def dy_def)
    then show ?thesis
      using point by (intro exI[of _ "[(row0, col0)]"]) (simp add: loop_end visitAll_def)
  next
    case col
    have n: "int (nat dx) = sx * (col1 - col0)" using A nn by simp
    have L: "- dy < 2 * (dx - dy)" and U: "2 * (dx - dy) < 3 * dx - 2 * dy" using col nn by simp_all
    from loop_major_col[OF sx sy nn(2) col n E L U, of "[]" visit st]
    show ?thesis using col nn by (auto simp: max_def)
  next
    case row
    have n: "int (nat dy) = sy * (row1 - row0)" using B nn by simp
    have L: "2 * (dx - dy) < dx" and U: "2 * dx - 3 * dy < 2 * (dx - dy)" using row nn by simp_all
    from loop_major_row[OF sx sy nn(1) row n E L U, of "[]" visit st]
    show ?thesis using row nn by (auto simp: max_def)
  qed
  then show ?thesis unfolding lc dl by (simp add: dx_def dy_def)
qed

text \<open>
  C4. For all cells \<open>(row0, col0)\<close> and \<open>(row1, col1)\<close> the loop of \<^verbatim>\<open>drawLine\<close> returns,
  and the cells it visits, in order, start at \<open>(row0, col0)\<close>, end at \<open>(row1, col1)\<close>, move by at
  most one row and one column from each cell to the next, and number at most
  \<open>max \<bar>col1 - col0\<bar> \<bar>row1 - row0\<bar> + 1\<close>; \<^verbatim>\<open>drawLine\<close> applies \<^verbatim>\<open>drawPixel\<close> to
  exactly these cells. From \<open>(0, 0)\<close> to \<open>(5, 5)\<close> they are the diagonal, from \<open>(0, 0)\<close> to
  \<open>(0, 5)\<close> the six cells of row 0.
\<close>

theorem bresenham_line:
  "(\<exists>cells. lineCells row0 col0 row1 col1 = Some cells \<and>
      drawLine row0 col0 row1 col1 s = Some (visitAll drawPixel cells s) \<and>
      hd cells = (row0, col0) \<and> last cells = (row1, col1) \<and> connected8 cells \<and>
      int (length cells) \<le> max \<bar>col1 - col0\<bar> \<bar>row1 - row0\<bar> + 1) \<and>
   lineCells 0 0 5 5 = Some [(0,0), (1,1), (2,2), (3,3), (4,4), (5,5)] \<and>
   lineCells 0 0 0 5 = Some [(0,0), (0,1), (0,2), (0,3), (0,4), (0,5)]"
proof (intro conjI)
  from line_cells_exist[of row0 col0 row1 col1 drawPixel s]
  show "\<exists>cells. lineCells row0 col0 row1 col1 = Some cells \<and>
      drawLine row0 col0 row1 col1 s = Some (visitAll drawPixel cells s) \<and>
      hd cells = (row0, col0) \<and> last cells = (row1, col1) \<and> connected8 cells \<and>
      int (length cells) \<le> max \<bar>col1 - col0\<bar> \<bar>row1 - row0\<bar> + 1"
    unfolding drawLine_def by force
  show "lineCells 0 0 5 5 = Some [(0,0), (1,1), (2,2), (3,3), (4,4), (5,5)]"
    by (simp add: lineCells_def drawLine_with_def drawLine_loop.simps)
  show "lineCells 0 0 0 5 = Some [(0,0), (0,1), (0,2), (0,3), (0,4), (0,5)]"
    by (simp add: lineCells_def drawLine_with_def drawLine_loop.simps)
qed

theorem bresenham_line_witness:
  "\<exists>cells. lineCells 2 7 4 1 = Some cells \<and> hd cells = (2, 7) \<and> last cells = (4, 1) \<and>
     connected8 cells \<and> length cells \<le> 7"
proof -
  from bresenham_line[of 2 7 4 1 startup]
  obtain cells where "lineCells 2 7 4 1 = Some cells" "hd cells = (2, 7)" "last cells = (4, 1)"
    "connected8 cells" "int (length cells) \<le> max \<bar>1 - 7\<bar> \<bar>4 - 2\<bar> + 1"
    by blast
  then show ?thesis by (intro exI[of _ cells]) simp
qed

section \<open>The state invariant\<close>

lemma grid_ok_entry:
  "grid_ok s \<longleftrightarrow>
     0 \<le> gridHeight s \<and> 0 \<le> gridWidth s \<and>
     entry_ok (nat (gridHeight s)) (nat (gridWidth s)) (grid s)"
  by (auto simp: grid_ok_def entry_ok_def)

lemma list_all_slice0: "list_all P xs \<Longrightarrow> list_all P (slice0 xs e)"
  by (auto simp: slice0_def list_all_iff dest: in_set_takeD)

lemma list_all_tl: "list_all P xs \<Longrightarrow> list_all P (tl xs)"
  by (cases xs) simp_all

lemma saveState_ok: "editor_ok s \<Longrightarrow> editor_ok (saveState s)"
proof -
  assume a: "editor_ok s"
  let ?P = "entry_ok (nat (gridHeight s)) (nat (gridWidth s))"
  let ?h = "slice0 (history s) (historyIndex s + 1) @ [grid s]"
  have all: "list_all ?P ?h"
    using a by (simp add: editor_ok_def grid_ok_entry list_all_slice0)
  have len: "length ?h = nat (historyIndex s) + 2"
    using a by (auto simp: editor_ok_def hist_ok_def slice0_take)
  have g: "grid_ok (saveState s)"
    using a by (simp add: editor_ok_def grid_ok_def saveState_fields)
  show ?thesis
  proof (cases "int (length ?h) > MAX_HISTORY")
    case True
    then have s: "saveState s = s\<lparr>history := tl ?h\<rparr>" by (simp add: saveState_def Let_def)
    have "hist_ok (saveState s)"
      using a True len unfolding s by (simp add: editor_ok_def hist_ok_def MAX_HISTORY_def)
    moreover have "list_all ?P (history (saveState s))"
      using list_all_tl[OF all] by (simp add: s)
    ultimately show ?thesis using g by (simp add: editor_ok_def saveState_fields)
  next
    case False
    then have s: "saveState s = s\<lparr>history := ?h, historyIndex := historyIndex s + 1\<rparr>"
      by (simp add: saveState_def Let_def)
    have "hist_ok (saveState s)"
      using a False len unfolding s by (simp add: editor_ok_def hist_ok_def MAX_HISTORY_def)
    moreover have "list_all ?P (history (saveState s))"
      using all by (simp add: s)
    ultimately show ?thesis using g by (simp add: editor_ok_def saveState_fields)
  qed
qed

lemma initializeGrid_editor_ok:
  "0 \<le> gridHeight s \<Longrightarrow> 0 \<le> gridWidth s \<Longrightarrow> editor_ok (initializeGrid s)"
  by (simp add: editor_ok_def initializeGrid_ok hist_ok_def initializeGrid_history MAX_HISTORY_def
      entry_ok_def initializeGrid_fields rows_ok_iff)

lemma startup_editor_ok: "editor_ok startup"
  unfolding startup_def by (rule initializeGrid_editor_ok) (simp_all add: initialRefs_def)

lemma resizeGrid_ok: "editor_ok s \<Longrightarrow> editor_ok (resizeGrid n s)"
  by (simp add: resizeGrid_def initializeGrid_editor_ok)

lemma history_entry_ok:
  "editor_ok s \<Longrightarrow> 0 \<le> i \<Longrightarrow> i < int (length (history s)) \<Longrightarrow>
     entry_ok (nat (gridHeight s)) (nat (gridWidth s)) (history s ! nat i)"
  by (simp add: editor_ok_def list_all_length)

lemma undo_ok: "editor_ok s \<Longrightarrow> editor_ok (undo s)"
proof (cases "historyIndex s > 0")
  case False
  then show "editor_ok s \<Longrightarrow> editor_ok (undo s)" by (simp add: undo_def)
next
  case True
  assume a: "editor_ok s"
  let ?i = "historyIndex s - 1"
  have u: "undo s = s\<lparr>historyIndex := ?i, grid := history s ! nat ?i\<rparr>"
    using True by (simp add: undo_def Let_def)
  have "entry_ok (nat (gridHeight s)) (nat (gridWidth s)) (history s ! nat ?i)"
    using a True by (intro history_entry_ok) (simp_all add: editor_ok_def hist_ok_def)
  then show "editor_ok (undo s)"
    using a True unfolding u
    by (simp add: editor_ok_def grid_ok_entry hist_ok_def entry_ok_def)
qed

lemma redo_ok: "editor_ok s \<Longrightarrow> editor_ok (redo s)"
proof (cases "historyIndex s < int (length (history s)) - 1")
  case False
  then show "editor_ok s \<Longrightarrow> editor_ok (redo s)" by (simp add: redo_def)
next
  case True
  assume a: "editor_ok s"
  let ?i = "historyIndex s + 1"
  have u: "redo s = s\<lparr>historyIndex := ?i, grid := history s ! nat ?i\<rparr>"
    using True by (simp add: redo_def Let_def)
  have "entry_ok (nat (gridHeight s)) (nat (gridWidth s)) (history s ! nat ?i)"
    using a True by (intro history_entry_ok) (simp_all add: editor_ok_def hist_ok_def)
  then show "editor_ok (redo s)"
    using a True unfolding u
    by (simp add: editor_ok_def grid_ok_entry hist_ok_def entry_ok_def)
qed

lemma editor_ok_grid_update:
  "editor_ok s \<Longrightarrow> map length g = map length (grid s) \<Longrightarrow> editor_ok (s\<lparr>grid := g\<rparr>)"
proof -
  assume a: "editor_ok s" and m: "map length g = map length (grid s)"
  from m have "length g = length (grid s)" using map_eq_imp_length_eq by blast
  then show ?thesis
    using a m by (simp add: editor_ok_def grid_ok_def rows_ok_iff hist_ok_def entry_ok_def)
qed

lemma addToColorHistory_ok: "editor_ok s \<Longrightarrow> editor_ok (addToColorHistory c s)"
  by (simp add: editor_ok_def grid_ok_def hist_ok_def entry_ok_def addToColorHistory_fields)

lemma floodFill_ok: "editor_ok s \<Longrightarrow> editor_ok (floodFill row col tc rc s)"
proof -
  assume a: "editor_ok s"
  obtain g where e: "floodFill row col tc rc s = s\<lparr>grid := g\<rparr>"
    using floodFill_only_grid by blast
  have "map length (grid (floodFill row col tc rc s)) = map length (grid s)"
    using floodFill_repaints[of tc rc s row col] by (simp add: repaints_def)
  then have "map length g = map length (grid s)" by (simp add: e)
  from editor_ok_grid_update[OF a this] show ?thesis by (simp add: e)
qed

lemma drawPixel_ok: "editor_ok s \<Longrightarrow> editor_ok (drawPixel row col s)"
proof (cases "inBounds s row col")
  case False
  then show "editor_ok s \<Longrightarrow> editor_ok (drawPixel row col s)"
    by (auto simp: drawPixel_def inBounds_def)
next
  case True
  assume a: "editor_ok s"
  then have g: "grid_ok s" by (simp add: editor_ok_def)
  note c = getCell_in_grid[OF g True]
  show "editor_ok (drawPixel row col s)"
  proof (cases "currentTool s")
    case Pencil
    let ?s1 = "addToColorHistory (currentColor s) s"
    have "drawPixel row col s = ?s1\<lparr>grid := paintCells (brushCells ?s1 row col) (currentColor s) (grid ?s1)\<rparr>"
      using True Pencil by (simp add: drawPixel_def inBounds_def Let_def)
    then show ?thesis
      using editor_ok_grid_update[OF addToColorHistory_ok[OF a]] by (simp add: map_length_paintCells)
  next
    case Eraser
    have "drawPixel row col s = s\<lparr>grid := paintCells (brushCells s row col) ''#FFFFFF'' (grid s)\<rparr>"
      using True Eraser by (simp add: drawPixel_def inBounds_def)
    then show ?thesis
      using editor_ok_grid_update[OF a] by (simp add: map_length_paintCells)
  next
    case Fill
    show ?thesis
      unfolding drawPixel_fill[OF True Fill c]
      by (intro saveState_ok addToColorHistory_ok floodFill_ok a)
  next
    case Eyedropper
    show ?thesis
      unfolding drawPixel_eyedropper[OF True Eyedropper c]
      using a by (simp add: editor_ok_def grid_ok_def hist_ok_def entry_ok_def)
  qed
qed

lemma editor_ok_flags:
  "editor_ok s \<Longrightarrow> editor_ok (s\<lparr>isDrawing := b, lastDrawnPos := p\<rparr>)"
  by (simp add: editor_ok_def grid_ok_def hist_ok_def entry_ok_def)

lemma startDrawing_ok: "editor_ok s \<Longrightarrow> editor_ok (startDrawing row col s)"
  unfolding startDrawing_def by (intro drawPixel_ok editor_ok_flags)

lemma stopDrawing_ok: "editor_ok s \<Longrightarrow> editor_ok (stopDrawing s)"
  unfolding stopDrawing_def Let_def
  by (cases "isDrawing s") (simp_all add: editor_ok_flags saveState_ok)

lemma visitAll_ok:
  "(\<And>r c x. P x \<Longrightarrow> P (visit r c x)) \<Longrightarrow> P st \<Longrightarrow> P (visitAll visit cells st)"
  unfolding visitAll_def by (induction cells arbitrary: st) auto

lemma drawLine_ok:
  "editor_ok s \<Longrightarrow> \<exists>s'. drawLine row0 col0 row1 col1 s = Some s' \<and> editor_ok s'"
proof -
  assume a: "editor_ok s"
  from line_cells_exist[of row0 col0 row1 col1 drawPixel s]
  obtain cells where "drawLine row0 col0 row1 col1 s = Some (visitAll drawPixel cells s)"
    unfolding drawLine_def by blast
  moreover have "editor_ok (visitAll drawPixel cells s)"
    by (rule visitAll_ok[where P = editor_ok, OF drawPixel_ok a])
  ultimately show ?thesis by blast
qed

lemma stopDrawing_twice: "stopDrawing (stopDrawing s) = stopDrawing s"
  by (simp add: stopDrawing_def Let_def)

lemma editor_ok_reads:
  assumes "editor_ok s"
  shows "inBounds s row col \<Longrightarrow> getCell (grid s) row col \<noteq> None"
    and "0 < historyIndex s \<Longrightarrow> nat (historyIndex s - 1) < length (history s)"
    and "historyIndex s < int (length (history s)) - 1 \<Longrightarrow> nat (historyIndex s + 1) < length (history s)"
    and "0 \<le> historyIndex s + 1"
  using assms getCell_in_grid[of s row col]
  by (auto simp: editor_ok_def hist_ok_def)

section \<open>Gestures\<close>

lemma drawPixel_stroking: "stroking h i s \<Longrightarrow> stroking h i (drawPixel row col s)"
  using drawPixel_keeps_history[of s row col]
  by (auto simp: stroking_def drawPixel_def Let_def addToColorHistory_def)

lemma drawLine_stroking:
  assumes "stroking h i s"
  shows "\<exists>s'. drawLine row0 col0 row1 col1 s = Some s' \<and> stroking h i s'"
proof -
  from line_cells_exist[of row0 col0 row1 col1 drawPixel s]
  obtain cells where "drawLine row0 col0 row1 col1 s = Some (visitAll drawPixel cells s)"
    unfolding drawLine_def by blast
  moreover have "stroking h i (visitAll drawPixel cells s)"
    by (rule visitAll_ok[where P = "stroking h i", OF drawPixel_stroking assms])
  ultimately show ?thesis by blast
qed

lemma stroking_lastDrawnPos: "stroking h i s \<Longrightarrow> stroking h i (s\<lparr>lastDrawnPos := p\<rparr>)"
  by (simp add: stroking_def)

lemma onCanvasMouseMove_stroking:
  assumes "stroking h i s"
  shows "\<exists>s'. onCanvasMouseMove 1 coords s = Some s' \<and> stroking h i s'"
proof (cases coords)
  case None
  then show ?thesis using assms by (simp add: onCanvasMouseMove_def stroking_def)
next
  case (Some p)
  obtain row col where p: "p = (row, col)" by (cases p)
  have d: "isDrawing s" "currentTool s = Pencil \<or> currentTool s = Eraser"
    using assms by (simp_all add: stroking_def)
  show ?thesis
  proof (cases "lastDrawnPos s")
    case None
    then have "onCanvasMouseMove 1 coords s = Some ((drawPixel row col s)\<lparr>lastDrawnPos := Some (row, col)\<rparr>)"
      using d Some p by (simp add: onCanvasMouseMove_def)
    then show ?thesis
      using stroking_lastDrawnPos[OF drawPixel_stroking[OF assms]] by simp
  next
    case (Some q)
    obtain lr lc where q: "q = (lr, lc)" by (cases q)
    show ?thesis
    proof (cases "lr \<noteq> row \<or> lc \<noteq> col")
      case True
      from drawLine_stroking[OF assms, of lr lc row col]
      obtain s2 where s2: "drawLine lr lc row col s = Some s2" "stroking h i s2" by blast
      have "onCanvasMouseMove 1 coords s = Some (s2\<lparr>lastDrawnPos := Some (row, col)\<rparr>)"
        using d Some q True s2(1) \<open>coords = Some p\<close> p by (simp add: onCanvasMouseMove_def)
      then show ?thesis using stroking_lastDrawnPos[OF s2(2)] by simp
    next
      case False
      then have "onCanvasMouseMove 1 coords s = Some (s\<lparr>lastDrawnPos := Some (row, col)\<rparr>)"
        using d Some q \<open>coords = Some p\<close> p by (simp add: onCanvasMouseMove_def)
      then show ?thesis using stroking_lastDrawnPos[OF assms] by simp
    qed
  qed
qed

lemma dragMoves_stroking:
  "stroking h i s \<Longrightarrow> \<exists>s'. dragMoves cs s = Some s' \<and> stroking h i s'"
proof (induction cs arbitrary: s)
  case Nil
  then show ?case by simp
next
  case (Cons c cs)
  from onCanvasMouseMove_stroking[OF Cons.prems, of c]
  obtain s1 where s1: "onCanvasMouseMove 1 c s = Some s1" "stroking h i s1" by blast
  from Cons.IH[OF s1(2)] show ?case by (simp add: s1(1))
qed

lemma stroke_one_snapshot:
  assumes "currentTool s = Pencil \<or> currentTool s = Eraser" "at_newest s" "length (history s) < 50"
  shows "\<exists>s'. dragMoves cs (startDrawing row col s) = Some s' \<and>
     history (stopDrawing s') = history s @ [grid s'] \<and>
     historyIndex (stopDrawing s') = historyIndex s + 1 \<and>
     grid (stopDrawing s') = grid s'"
proof -
  have "stroking (history s) (historyIndex s) (s\<lparr>isDrawing := True, lastDrawnPos := Some (row, col)\<rparr>)"
    using assms(1) by (simp add: stroking_def)
  then have "stroking (history s) (historyIndex s) (startDrawing row col s)"
    unfolding startDrawing_def by (rule drawPixel_stroking)
  from dragMoves_stroking[OF this, of cs]
  obtain s' where s': "dragMoves cs (startDrawing row col s) = Some s'"
    "stroking (history s) (historyIndex s) s'" by blast
  have a: "at_newest s'" "length (history s') < 50"
    using s'(2) assms(2,3) by (simp_all add: stroking_def at_newest_def)
  have "isDrawing s'" using s'(2) by (simp add: stroking_def)
  then have "stopDrawing s' = (saveState s')\<lparr>isDrawing := False, lastDrawnPos := None\<rparr>"
    by (simp add: stopDrawing_def)
  then show ?thesis
    using saveState_append[OF a] s' by (simp add: stroking_def saveState_fields)
qed

text \<open>
  C1 on the code. A pencil or eraser gesture, from pointer-down through any pointer motion
  to pointer-up, records one snapshot (\<open>stroke_one_snapshot\<close>). A fill click records two: \<^verbatim>\<open>drawPixel\<close> calls
  \<^verbatim>\<open>saveState\<close> in its fill branch, and \<^verbatim>\<open>startDrawing\<close> has set \<^verbatim>\<open>isDrawing\<close>
  for every tool, so \<^verbatim>\<open>stopDrawing\<close> calls it again at pointer-up. After one fill click at
  \<open>(0, 0)\<close> on the startup grid the history holds the blank grid and the filled grid twice,
  and one undo leaves the grid filled.
\<close>

theorem fill_click_recorded_twice:
  "length (history blackFill) = 1 \<and>
   grid (stopDrawing (startDrawing 0 0 blackFill)) = replicate 32 (replicate 32 ''#000000'') \<and>
   history (stopDrawing (startDrawing 0 0 blackFill)) =
     [replicate 32 (replicate 32 ''#FFFFFF''), replicate 32 (replicate 32 ''#000000''),
      replicate 32 (replicate 32 ''#000000'')] \<and>
   historyIndex (stopDrawing (startDrawing 0 0 blackFill)) = 2 \<and>
   grid (undo (stopDrawing (startDrawing 0 0 blackFill))) = replicate 32 (replicate 32 ''#000000'')"
proof -
  let ?W = "replicate 32 (replicate 32 ''#FFFFFF'')"
  let ?B = "replicate 32 (replicate 32 ''#000000'')"
  let ?p = "blackFill\<lparr>isDrawing := True, lastDrawnPos := Some (0, 0)\<rparr>"
  let ?f = "floodFill 0 0 ''#FFFFFF'' ''#000000'' ?p"
  let ?a = "addToColorHistory ''#000000'' ?f"
  have p: "inBounds ?p 0 0" "currentTool ?p = Fill" "getCell (grid ?p) 0 0 = Some ''#FFFFFF''"
    "currentColor ?p = ''#000000''"
    by (simp_all add: inBounds_def getCell_def blackFill_fields)
  have fg: "grid ?f = ?B"
    using floodFill_uniform_grid[of ?p "''#FFFFFF''" "''#000000''" 0 0] p(1)
    by (simp add: blackFill_fields)
  have sd: "startDrawing 0 0 blackFill = saveState ?a"
    unfolding startDrawing_def using drawPixel_fill[OF p(1,2,3)] p(4) by simp
  have a: "at_newest ?a" "length (history ?a) < 50" "history ?a = [?W]" "grid ?a = ?B"
    "isDrawing ?a" "historyIndex ?a = 0"
    by (simp_all add: at_newest_def addToColorHistory_fields floodFill_fields fg
        blackFill_fields)
  note s1 = saveState_append[OF a(1,2)]
  have h1: "history (saveState ?a) = [?W, ?B]" "historyIndex (saveState ?a) = 1"
    "grid (saveState ?a) = ?B" "isDrawing (saveState ?a)"
    using s1 a by (simp_all add: saveState_fields)
  have a2: "at_newest (saveState ?a)" "length (history (saveState ?a)) < 50"
    using s1 h1 by simp_all
  note s2 = saveState_append[OF a2]
  have e: "stopDrawing (startDrawing 0 0 blackFill)
     = (saveState (saveState ?a))\<lparr>isDrawing := False, lastDrawnPos := None\<rparr>"
    unfolding sd using h1(4) by (simp add: stopDrawing_def)
  have h2: "history (saveState (saveState ?a)) = [?W, ?B, ?B]"
    "historyIndex (saveState (saveState ?a)) = 2" "grid (saveState (saveState ?a)) = ?B"
    using s2 h1 by (simp_all add: saveState_fields)
  have "length (history blackFill) = 1" by (simp add: blackFill_fields)
  moreover have "grid (stopDrawing (startDrawing 0 0 blackFill)) = ?B"
    unfolding e using h2 by simp
  moreover have "history (stopDrawing (startDrawing 0 0 blackFill)) = [?W, ?B, ?B]"
    unfolding e using h2 by simp
  moreover have "historyIndex (stopDrawing (startDrawing 0 0 blackFill)) = 2"
    unfolding e using h2 by simp
  moreover have "grid (undo (stopDrawing (startDrawing 0 0 blackFill))) = ?B"
    unfolding e using h2 by (simp add: undo_def)
  ultimately show ?thesis by blast
qed

end
